theory Spec2Isabelle
  imports Main "HOL-Library.Word" "HOL-Library.Signed_Division"
begin

section \<open>Bytes, faults and fixed arrays\<close>

text \<open>
  The adapters of \<^verbatim>\<open>EncryptionStream.cpp\<close> own fixed arrays \<^verbatim>\<open>uint8_t m_buffer[4096]\<close> and
  keep raw pointers into them. An array is a list of bytes, a pointer into an array is
  the \<^typ>\<open>int\<close> offset from the array's first element (the source's counts are
  \<^verbatim>\<open>int\<close>, and \<^verbatim>\<open>AdvanceRead\<close> adds a signed count to a pointer). Every access to
  an array is checked: an access outside the array, a division by zero, a failed
  \<^verbatim>\<open>TWN_REQUIRE\<close> that halts, and \<^verbatim>\<open>TWN_BUG\<close> are values of \<open>fault\<close>.
\<close>

type_synonym byte = "8 word"

datatype fault =
    DivisionByZero
  | OutOfBounds
  | RequireFailed
  | PaddingNoSpace
  | InvalidPadding
  | SinkFailed

definition bindF :: "fault + 'a \<Rightarrow> ('a \<Rightarrow> fault + 'b) \<Rightarrow> fault + 'b" where
  "bindF m f = (case m of Inl e \<Rightarrow> Inl e | Inr x \<Rightarrow> f x)"

lemma bindF_Inr [simp]: "bindF (Inr x) f = f x"
  by (simp add: bindF_def)

lemma bindF_Inl [simp]: "bindF (Inl e) f = Inl e"
  by (simp add: bindF_def)

definition TWN_ARRAY_SIZE :: "byte list \<Rightarrow> int" where
  "TWN_ARRAY_SIZE a = int (length a)"

text \<open>The operator \<^verbatim>\<open>%\<close> of C++ on \<^verbatim>\<open>int\<close>: the remainder of the truncating division.\<close>

definition c_rem :: "int \<Rightarrow> int \<Rightarrow> fault + int" where
  "c_rem a b = (if b = 0 then Inl DivisionByZero else Inr (a smod b))"

text \<open>Reading \<open>n\<close> bytes at offset \<open>off\<close>, and writing the bytes \<open>bs\<close> at offset \<open>off\<close>.\<close>

definition memread :: "byte list \<Rightarrow> int \<Rightarrow> int \<Rightarrow> fault + byte list" where
  "memread a off n =
     (if 0 \<le> off \<and> 0 \<le> n \<and> off + n \<le> int (length a)
      then Inr (take (nat n) (drop (nat off) a))
      else Inl OutOfBounds)"

definition memwrite :: "byte list \<Rightarrow> int \<Rightarrow> byte list \<Rightarrow> fault + byte list" where
  "memwrite a off bs =
     (if 0 \<le> off \<and> off + int (length bs) \<le> int (length a)
      then Inr (take (nat off) a @ bs @ drop (nat off + length bs) a)
      else Inl OutOfBounds)"

text \<open>
  \<^verbatim>\<open>static_cast<int>(n)\<close> of a \<^verbatim>\<open>size_t\<close>: the low 32 bits, read as two's complement.
  The other way, an \<^verbatim>\<open>int\<close> passed where a \<^verbatim>\<open>size_t\<close> is expected is taken modulo \<open>2^64\<close>.
\<close>

definition static_cast_int :: "64 word \<Rightarrow> int" where
  "static_cast_int n = sint (ucast n :: 32 word)"

definition size_t_of_int :: "int \<Rightarrow> int" where
  "size_t_of_int n = n mod 2 ^ 64"

text \<open>
  \<^verbatim>\<open>memcpy(dst, src, n)\<close>, whose count is a \<^verbatim>\<open>size_t\<close>: that many bytes are read at the
  start of \<open>src\<close> and written at the start of \<open>dst\<close>.
\<close>

definition memcpy :: "byte list \<Rightarrow> byte list \<Rightarrow> int \<Rightarrow> fault + byte list" where
  "memcpy dst src n = bindF (memread src 0 (size_t_of_int n)) (\<lambda>bs. memwrite dst 0 bs)"

text \<open>
  Modelled from the spec: the macros \<^verbatim>\<open>TWN_REQUIRE\<close> and \<^verbatim>\<open>TWN_BUG\<close> of
  \<^verbatim>\<open>Common/Assert.h\<close>, which is not part of the source. A contract violation is
  reported as a failed precondition and halts in a debug build; the flag \<open>dbg\<close> is the
  build. Elsewhere execution goes on after the report (the source handles the failing
  case itself right after \<^verbatim>\<open>TWN_REQUIRE\<close> in \<^verbatim>\<open>AdvanceRead\<close>). \<^verbatim>\<open>TWN_BUG\<close> is fatal in
  every build: it is the fault named at its place of use.
\<close>

definition TWN_REQUIRE :: "bool \<Rightarrow> bool \<Rightarrow> fault + unit" where
  "TWN_REQUIRE dbg c = (if c \<or> \<not> dbg then Inr () else Inl RequireFailed)"

text \<open>
  The cipher primitive \<^verbatim>\<open>m_crypto\<close> (\<^verbatim>\<open>SSLCrypto\<close> or \<^verbatim>\<open>XBCrypto\<close>) is a parameter: a
  transform \<open>F\<close> that maps the session and the input bytes to the bytes produced and
  the next session. \<^verbatim>\<open>Cipher(src, dst, n)\<close> reads \<open>n\<close> bytes at the start of \<open>src\<close>,
  writes what the transform produced at \<open>dst + off\<close> and returns its length.
\<close>

type_synonym 'k transform = "'k \<Rightarrow> byte list \<Rightarrow> byte list \<times> 'k"

definition Cipher :: "'k transform \<Rightarrow> 'k \<Rightarrow> byte list \<Rightarrow> byte list \<Rightarrow> int \<Rightarrow> int
    \<Rightarrow> fault + (int \<times> byte list \<times> 'k)" where
  "Cipher F k src dst off n =
     bindF (memread src 0 n) (\<lambda>inp.
       case F k inp of (out, k') \<Rightarrow>
         bindF (memwrite dst off out) (\<lambda>dst'. Inr (int (length out), dst', k')))"

text \<open>
  Modelled from the spec: the wrapped source \<^verbatim>\<open>ReadStream\<close> of \<^verbatim>\<open>Stream.h\<close>, which is not
  part of the source. A source is the list of the spans it will still hand out:
  \<^verbatim>\<open>NextRead\<close> returns the first span without advancing, or fails when none is left;
  \<^verbatim>\<open>AdvanceRead(n)\<close> consumes \<open>n\<close> bytes of that span and moves to the next span once
  the current one is used up.
\<close>

type_synonym ReadStream = "byte list list"

definition ReadStream_NextRead :: "ReadStream \<Rightarrow> byte list option" where
  "ReadStream_NextRead src = (case src of [] \<Rightarrow> None | c # _ \<Rightarrow> Some c)"

definition ReadStream_AdvanceRead :: "int \<Rightarrow> ReadStream \<Rightarrow> ReadStream" where
  "ReadStream_AdvanceRead n src =
     (case src of [] \<Rightarrow> []
      | c # cs \<Rightarrow> if int (length c) \<le> n then cs else drop (nat n) c # cs)"

text \<open>A \<^verbatim>\<open>Buffer\<close> is a view: where the data starts and how long it is.\<close>

type_synonym Buffer = "int \<times> int"

section \<open>DecryptionStream\<close>

record 'k DecryptionStream =
  ds_source :: ReadStream
  ds_crypto :: 'k
  ds_buffer :: "byte list"
  ds_readPos :: int
  ds_readEnd :: int

definition DecryptionStream_GetAvailableRead :: "'k DecryptionStream \<Rightarrow> int" where
  "DecryptionStream_GetAvailableRead s = ds_readEnd s - ds_readPos s"

definition DecryptionStream_AdvanceRead ::
    "bool \<Rightarrow> int \<Rightarrow> 'k DecryptionStream \<Rightarrow> fault + (bool \<times> 'k DecryptionStream)" where
  "DecryptionStream_AdvanceRead dbg bytes s =
     bindF (TWN_REQUIRE dbg (bytes \<le> DecryptionStream_GetAvailableRead s)) (\<lambda>_.
       if bytes \<le> DecryptionStream_GetAvailableRead s
       then Inr (True, s\<lparr>ds_readPos := ds_readPos s + bytes\<rparr>)
       else Inr (False, s))"

text \<open>
  \<^verbatim>\<open>Decrypt\<close> of the stream decryptor: one pull from the source, at most a window of
  bytes, transformed in place. The length of the span is a \<^verbatim>\<open>size_t\<close> and is cast to
  \<^verbatim>\<open>int\<close> before the minimum with the capacity is taken.
\<close>

definition DecryptionStream_Decrypt ::
    "'k transform \<Rightarrow> 'k DecryptionStream \<Rightarrow> fault + (bool \<times> 'k DecryptionStream)" where
  "DecryptionStream_Decrypt F s0 =
     (let s = s0\<lparr>ds_readPos := 0, ds_readEnd := 0\<rparr> in
      case ReadStream_NextRead (ds_source s) of
        None \<Rightarrow> Inr (False, s)
      | Some buffer \<Rightarrow>
          (let len = min (TWN_ARRAY_SIZE (ds_buffer s))
                         (static_cast_int (of_nat (length buffer))) in
           bindF (memcpy (ds_buffer s) buffer len) (\<lambda>b1.
             bindF (Cipher F (ds_crypto s) b1 b1 0 len) (\<lambda>(written, b2, k').
               Inr (True, s\<lparr>ds_source := ReadStream_AdvanceRead len (ds_source s),
                            ds_crypto := k', ds_buffer := b2, ds_readEnd := written\<rparr>)))))"

definition DecryptionStream_NextRead ::
    "'k transform \<Rightarrow> 'k DecryptionStream \<Rightarrow> fault + (Buffer option \<times> 'k DecryptionStream)" where
  "DecryptionStream_NextRead F s =
     bindF (if DecryptionStream_GetAvailableRead s = 0 then DecryptionStream_Decrypt F s
            else Inr (True, s)) (\<lambda>(ok, s').
       if ok then Inr (Some (ds_readPos s', ds_readEnd s' - ds_readPos s'), s')
       else Inr (None, s'))"

section \<open>BlockEncryptionStream\<close>

text \<open>
  The sink \<^verbatim>\<open>m_dest\<close> and the helper \<^verbatim>\<open>Stream::Copy\<close> are not part of the source:
  \<open>Copy\<close> is a parameter that hands the bytes to the sink and returns whether the sink
  took them, with the sink after it.
\<close>

type_synonym 'w copy = "byte list \<Rightarrow> 'w \<Rightarrow> bool \<times> 'w"

record ('k, 'w) BlockEncryptionStream =
  bes_dest :: 'w
  bes_crypto :: 'k
  bes_blockSize :: int
  bes_buffer :: "byte list"
  bes_encrypedBuffer :: "byte list"
  bes_writePos :: int

definition BlockEncryptionStream_GetAvailableRead :: "('k, 'w) BlockEncryptionStream \<Rightarrow> int" where
  "BlockEncryptionStream_GetAvailableRead s = bes_writePos s"

text \<open>
  \<^verbatim>\<open>m_crypto.Init\<close> is a parameter \<open>I\<close>: from the key size, the direction and the mode
  (the other arguments are the key material, here part of \<open>I\<close>) it gives the result and
  the session.
\<close>

type_synonym 'k crypto_init = "64 word \<Rightarrow> bool \<Rightarrow> bool \<Rightarrow> 'k \<Rightarrow> bool \<times> 'k"

definition BlockEncryptionStream_Init ::
    "'k crypto_init \<Rightarrow> 64 word \<Rightarrow> ('k, 'w) BlockEncryptionStream
      \<Rightarrow> bool \<times> ('k, 'w) BlockEncryptionStream" where
  "BlockEncryptionStream_Init I keySize s =
     (let s1 = s\<lparr>bes_blockSize := static_cast_int keySize\<rparr> in
      case I keySize True False (bes_crypto s1) of
        (ok, k') \<Rightarrow> (ok, s1\<lparr>bes_crypto := k'\<rparr>))"

definition BlockEncryptionStream_NextWrite ::
    "('k, 'w) BlockEncryptionStream \<Rightarrow> bool \<times> Buffer" where
  "BlockEncryptionStream_NextWrite s =
     (let bufferRemaining =
            (TWN_ARRAY_SIZE (bes_buffer s) - BlockEncryptionStream_GetAvailableRead s) mod 2 ^ 64
      in (True, (bes_writePos s, bufferRemaining)))"

definition BlockEncryptionStream_AdvanceWrite ::
    "'k transform \<Rightarrow> 'w copy \<Rightarrow> int \<Rightarrow> ('k, 'w) BlockEncryptionStream
      \<Rightarrow> fault + (bool \<times> ('k, 'w) BlockEncryptionStream)" where
  "BlockEncryptionStream_AdvanceWrite F Copy bytes s =
     (let totalBytes = bytes + BlockEncryptionStream_GetAvailableRead s in
      if totalBytes \<ge> bes_blockSize s then
        bindF (c_rem totalBytes (bes_blockSize s)) (\<lambda>r.
          let bytesToWrite = totalBytes - r;
              remainingBytes = totalBytes - bytesToWrite
          in bindF (Cipher F (bes_crypto s) (bes_buffer s) (bes_encrypedBuffer s) 0 bytesToWrite)
               (\<lambda>(written, e', k').
                 bindF (memread (bes_buffer s) bytesToWrite remainingBytes) (\<lambda>tail.
                   bindF (memwrite (bes_buffer s) 0 tail) (\<lambda>b'.
                     bindF (memread e' 0 written) (\<lambda>out.
                       case Copy out (bes_dest s) of
                         (ok, d') \<Rightarrow>
                           Inr (ok, s\<lparr>bes_dest := d', bes_crypto := k', bes_buffer := b',
                                     bes_encrypedBuffer := e',
                                     bes_writePos := remainingBytes\<rparr>))))))
      else Inr (True, s\<lparr>bes_writePos := bes_writePos s + bytes\<rparr>))"

text \<open>
  \<^verbatim>\<open>Pad(buffer, bufferLen, dataLen)\<close>: the loop stores \<open>paddingLen - 1\<close> zero bytes from
  \<open>buffer + dataLen\<close> on, then the byte \<^verbatim>\<open>static_cast<uint8_t>(paddingLen)\<close>.
\<close>

definition padding_bytes :: "int \<Rightarrow> byte list" where
  "padding_bytes paddingLen = replicate (nat (paddingLen - 1)) 0 @ [word_of_int paddingLen]"

definition BlockEncryptionStream_Pad ::
    "int \<Rightarrow> byte list \<Rightarrow> int \<Rightarrow> int \<Rightarrow> fault + (int \<times> byte list)" where
  "BlockEncryptionStream_Pad blockSize buffer bufferLen dataLen =
     bindF (c_rem dataLen blockSize) (\<lambda>r.
       let paddingLen = blockSize - r in
       if dataLen + paddingLen < bufferLen
       then bindF (memwrite buffer dataLen (padding_bytes paddingLen)) (\<lambda>b'.
              Inr (paddingLen, b'))
       else Inl PaddingNoSpace)"

definition BlockEncryptionStream_Flush ::
    "bool \<Rightarrow> 'k transform \<Rightarrow> 'w copy \<Rightarrow> ('k, 'w) BlockEncryptionStream
      \<Rightarrow> fault + ('k, 'w) BlockEncryptionStream" where
  "BlockEncryptionStream_Flush dbg F Copy s =
     bindF (BlockEncryptionStream_Pad (bes_blockSize s) (bes_buffer s)
              (TWN_ARRAY_SIZE (bes_buffer s)) (BlockEncryptionStream_GetAvailableRead s))
       (\<lambda>(padBytes, b').
         let s1 = s\<lparr>bes_buffer := b'\<rparr> in
         bindF (c_rem (BlockEncryptionStream_GetAvailableRead s1 + padBytes) (bes_blockSize s1))
           (\<lambda>r. bindF (TWN_REQUIRE dbg (r = 0)) (\<lambda>_.
             bindF (BlockEncryptionStream_AdvanceWrite F Copy padBytes s1) (\<lambda>(ok, s2).
               Inr s2))))"

section \<open>BlockDecryptionStream\<close>

record 'k BlockDecryptionStream =
  bds_source :: ReadStream
  bds_crypto :: 'k
  bds_blockSize :: int
  bds_buffer :: "byte list"
  bds_encrypedBuffer :: "byte list"
  bds_readPos :: int
  bds_readEnd :: int
  bds_writePos :: int

definition BlockDecryptionStream_GetAvailableRead :: "'k BlockDecryptionStream \<Rightarrow> int" where
  "BlockDecryptionStream_GetAvailableRead s = bds_readEnd s - bds_readPos s"

definition BlockDecryptionStream_GetUsedWrite :: "'k BlockDecryptionStream \<Rightarrow> int" where
  "BlockDecryptionStream_GetUsedWrite s = bds_writePos s"

definition BlockDecryptionStream_GetAvailableWrite :: "'k BlockDecryptionStream \<Rightarrow> int" where
  "BlockDecryptionStream_GetAvailableWrite s =
     TWN_ARRAY_SIZE (bds_encrypedBuffer s) - BlockDecryptionStream_GetUsedWrite s"

definition BlockDecryptionStream_Init ::
    "'k crypto_init \<Rightarrow> 64 word \<Rightarrow> 'k BlockDecryptionStream \<Rightarrow> bool \<times> 'k BlockDecryptionStream" where
  "BlockDecryptionStream_Init I keySize s =
     (let s1 = s\<lparr>bds_blockSize := static_cast_int keySize\<rparr> in
      case I keySize False False (bds_crypto s1) of
        (ok, k') \<Rightarrow> (ok, s1\<lparr>bds_crypto := k'\<rparr>))"

definition BlockDecryptionStream_AdvanceRead ::
    "bool \<Rightarrow> int \<Rightarrow> 'k BlockDecryptionStream \<Rightarrow> fault + (bool \<times> 'k BlockDecryptionStream)" where
  "BlockDecryptionStream_AdvanceRead dbg bytes s =
     bindF (TWN_REQUIRE dbg (bytes \<le> BlockDecryptionStream_GetAvailableRead s)) (\<lambda>_.
       if bytes \<le> BlockDecryptionStream_GetAvailableRead s
       then Inr (True, s\<lparr>bds_readPos := bds_readPos s + bytes\<rparr>)
       else Inr (False, s))"

text \<open>One byte of an array: \<^verbatim>\<open>*(m_readEnd - 1)\<close>.\<close>

definition memread1 :: "byte list \<Rightarrow> int \<Rightarrow> fault + byte" where
  "memread1 a i = (if 0 \<le> i \<and> i < int (length a) then Inr (a ! nat i) else Inl OutOfBounds)"

definition BlockDecryptionStream_Flush ::
    "bool \<Rightarrow> 'k transform \<Rightarrow> 'k BlockDecryptionStream \<Rightarrow> fault + 'k BlockDecryptionStream" where
  "BlockDecryptionStream_Flush dbg F s =
     (let bytesToRead = BlockDecryptionStream_GetUsedWrite s in
      bindF (c_rem bytesToRead (bds_blockSize s)) (\<lambda>r.
        bindF (TWN_REQUIRE dbg (r = 0)) (\<lambda>_.
          bindF (TWN_REQUIRE dbg
                   (bytesToRead \<le> TWN_ARRAY_SIZE (bds_buffer s) - (0 - bds_readEnd s))) (\<lambda>_.
            bindF (Cipher F (bds_crypto s) (bds_encrypedBuffer s) (bds_buffer s)
                     (bds_readEnd s) bytesToRead) (\<lambda>(written, b', k').
              let s1 = s\<lparr>bds_crypto := k', bds_buffer := b'\<rparr> in
              bindF (if written > 0 then
                       (let readEnd1 = bds_readEnd s1 + written in
                        bindF (memread1 (bds_buffer s1) (readEnd1 - 1)) (\<lambda>numPaddedBytes.
                          if uint numPaddedBytes \<le> bds_blockSize s1
                          then Inr (s1\<lparr>bds_readEnd := readEnd1 - uint numPaddedBytes\<rparr>)
                          else Inl InvalidPadding))
                     else Inr s1) (\<lambda>s2.
                Inr (s2\<lparr>bds_writePos := 0\<rparr>)))))))"

text \<open>
  One pass of the loop of \<^verbatim>\<open>Decrypt\<close>, for the span \<open>buffer\<close> that the source returned:
  the bytes pulled by the pass and the adapter after it.
\<close>

definition BlockDecryptionStream_Decrypt_pass ::
    "'k transform \<Rightarrow> byte list \<Rightarrow> 'k BlockDecryptionStream
      \<Rightarrow> fault + (int \<times> 'k BlockDecryptionStream)" where
  "BlockDecryptionStream_Decrypt_pass F buffer s =
     (let len = min (BlockDecryptionStream_GetAvailableWrite s) (int (length buffer)) in
      bindF (memwrite (bds_encrypedBuffer s) (bds_writePos s) (take (nat len) buffer)) (\<lambda>e1.
        let s1 = s\<lparr>bds_encrypedBuffer := e1, bds_writePos := bds_writePos s + len,
                   bds_source := ReadStream_AdvanceRead len (bds_source s)\<rparr>;
            availableBytes = BlockDecryptionStream_GetUsedWrite s1
        in bindF (c_rem availableBytes (bds_blockSize s1)) (\<lambda>r.
             let bytesToRead = availableBytes - r - bds_blockSize s1;
                 remainingBytes = availableBytes - bytesToRead
             in if bytesToRead > 0 then
                  bindF (Cipher F (bds_crypto s1) (bds_encrypedBuffer s1) (bds_buffer s1) 0
                           bytesToRead) (\<lambda>(written, b', k').
                    bindF (memread (bds_encrypedBuffer s1) bytesToRead remainingBytes) (\<lambda>tail.
                      bindF (memwrite (bds_encrypedBuffer s1) 0 tail) (\<lambda>e2.
                        Inr (len, s1\<lparr>bds_crypto := k', bds_buffer := b',
                                      bds_readEnd := written, bds_encrypedBuffer := e2,
                                      bds_writePos := remainingBytes\<rparr>))))
                else Inr (len, s1))))"

definition ReadStream_size :: "ReadStream \<Rightarrow> nat" where
  "ReadStream_size src = sum_list (map (\<lambda>c. Suc (length c)) src)"

lemma ReadStream_AdvanceRead_size:
  assumes "ReadStream_NextRead src = Some c" and "0 < n \<or> (n = 0 \<and> c = [])"
  shows "ReadStream_size (ReadStream_AdvanceRead n src) < ReadStream_size src"
proof (cases src)
  case Nil
  with assms(1) show ?thesis by (simp add: ReadStream_NextRead_def)
next
  case (Cons d ds)
  with assms(1) have d: "d = c" by (simp add: ReadStream_NextRead_def)
  show ?thesis
  proof (cases "int (length c) \<le> n")
    case True
    then show ?thesis using Cons d
      by (simp add: ReadStream_AdvanceRead_def ReadStream_size_def)
  next
    case False
    with assms(2) have "0 < n" "nat n < length c" by auto
    then show ?thesis using Cons d False
      by (simp add: ReadStream_AdvanceRead_def ReadStream_size_def)
  qed
qed

lemma Decrypt_pass_source:
  assumes "BlockDecryptionStream_Decrypt_pass F buffer s = Inr (len, s')"
  shows "bds_source s' = ReadStream_AdvanceRead len (bds_source s)
       \<and> len = min (BlockDecryptionStream_GetAvailableWrite s) (int (length buffer))"
  using assms
  by (auto simp: BlockDecryptionStream_Decrypt_pass_def bindF_def Let_def
           split: sum.splits if_splits prod.splits)

function BlockDecryptionStream_Decrypt_loop ::
    "'k transform \<Rightarrow> int \<Rightarrow> 'k BlockDecryptionStream
      \<Rightarrow> fault + (int \<times> 'k BlockDecryptionStream)" where
  "BlockDecryptionStream_Decrypt_loop F bytesRead s =
     (if BlockDecryptionStream_GetAvailableWrite s > 0
         \<and> BlockDecryptionStream_GetAvailableRead s < bds_blockSize s
      then (case ReadStream_NextRead (bds_source s) of
              None \<Rightarrow> Inr (bytesRead, s)
            | Some buffer \<Rightarrow>
                (case BlockDecryptionStream_Decrypt_pass F buffer s of
                   Inl e \<Rightarrow> Inl e
                 | Inr (len, s') \<Rightarrow> BlockDecryptionStream_Decrypt_loop F (bytesRead + len) s'))
      else Inr (bytesRead, s))"
  by pat_completeness auto
termination
proof (relation "measure (\<lambda>(F, bytesRead, s). ReadStream_size (bds_source s))", goal_cases)
  case 1
  show ?case by simp
next
  case (2 F bytesRead s buffer x len s')
  from 2(3,4) have p: "BlockDecryptionStream_Decrypt_pass F buffer s = Inr (len, s')" by simp
  note src = Decrypt_pass_source [OF p]
  have "0 < len \<or> (len = 0 \<and> buffer = [])"
    using src 2(1) by (auto simp: min_def split: if_splits)
  with ReadStream_AdvanceRead_size [OF 2(2), of len] src
  show ?case by simp
qed

declare BlockDecryptionStream_Decrypt_loop.simps [simp del]

definition BlockDecryptionStream_Decrypt ::
    "'k transform \<Rightarrow> 'k BlockDecryptionStream \<Rightarrow> fault + (bool \<times> 'k BlockDecryptionStream)" where
  "BlockDecryptionStream_Decrypt F s0 =
     bindF (BlockDecryptionStream_Decrypt_loop F 0 (s0\<lparr>bds_readPos := 0, bds_readEnd := 0\<rparr>))
       (\<lambda>(bytesRead, s'). Inr (bytesRead > 0, s'))"

definition BlockDecryptionStream_NextRead ::
    "'k transform \<Rightarrow> 'k BlockDecryptionStream
      \<Rightarrow> fault + (Buffer option \<times> 'k BlockDecryptionStream)" where
  "BlockDecryptionStream_NextRead F s =
     bindF (if BlockDecryptionStream_GetAvailableRead s = 0 then BlockDecryptionStream_Decrypt F s
            else Inr (True, s)) (\<lambda>(ok, s').
       if ok then Inr (Some (bds_readPos s', bds_readEnd s' - bds_readPos s'), s')
       else Inr (None, s'))"

section \<open>Callers: writing a stream, reading it back\<close>

text \<open>
  The caller of the block decryptor, as the chunked stream protocol has it: ask for the
  next span, take all of it, commit it with \<^verbatim>\<open>AdvanceRead\<close>, until \<^verbatim>\<open>NextRead\<close> fails.
  Each round either empties the window or has pulled from the source, so the loop ends.
\<close>

lemma Decrypt_loop_source:
  "BlockDecryptionStream_Decrypt_loop F n s = Inr (m, s') \<Longrightarrow>
     ReadStream_size (bds_source s') \<le> ReadStream_size (bds_source s)
   \<and> (m \<noteq> n \<longrightarrow> ReadStream_size (bds_source s') < ReadStream_size (bds_source s))"
proof (induction F n s rule: BlockDecryptionStream_Decrypt_loop.induct)
  case (1 F bytesRead s)
  note unf = BlockDecryptionStream_Decrypt_loop.simps [of F bytesRead s]
  show ?case
  proof (cases "BlockDecryptionStream_GetAvailableWrite s > 0
         \<and> BlockDecryptionStream_GetAvailableRead s < bds_blockSize s")
    case False
    with "1.prems" show ?thesis by (simp add: unf)
  next
    case g: True
    show ?thesis
    proof (cases "ReadStream_NextRead (bds_source s)")
      case None
      with g "1.prems" show ?thesis by (simp add: unf)
    next
      case (Some buffer)
      show ?thesis
      proof (cases "BlockDecryptionStream_Decrypt_pass F buffer s")
        case (Inl e)
        with g Some "1.prems" show ?thesis by (simp add: unf)
      next
        case (Inr r)
        obtain len s1 where r: "r = (len, s1)" by (cases r)
        from g Some Inr r "1.prems"
        have rec: "BlockDecryptionStream_Decrypt_loop F (bytesRead + len) s1 = Inr (m, s')"
          by (simp add: unf)
        note src = Decrypt_pass_source [OF Inr [unfolded r]]
        have "0 < len \<or> (len = 0 \<and> buffer = [])"
          using src g by (auto simp: min_def split: if_splits)
        with ReadStream_AdvanceRead_size [OF Some, of len] src
        have lt: "ReadStream_size (bds_source s1) < ReadStream_size (bds_source s)" by simp
        from "1.IH" [OF g Some Inr r [symmetric] rec] lt
        show ?thesis by simp
      qed
    qed
  qed
qed

lemma Decrypt_True_source:
  assumes "BlockDecryptionStream_Decrypt F s = Inr (True, s')"
  shows "ReadStream_size (bds_source s') < ReadStream_size (bds_source s)"
proof -
  from assms obtain m where
    l: "BlockDecryptionStream_Decrypt_loop F 0 (s\<lparr>bds_readPos := 0, bds_readEnd := 0\<rparr>) = Inr (m, s')"
    and m: "0 < m"
    by (auto simp: BlockDecryptionStream_Decrypt_def bindF_def split: sum.splits prod.splits)
  from Decrypt_loop_source [OF l] m show ?thesis by simp
qed

definition drain_measure :: "'k BlockDecryptionStream \<Rightarrow> nat" where
  "drain_measure s = 2 * ReadStream_size (bds_source s)
      + (if BlockDecryptionStream_GetAvailableRead s = 0 then 0 else 1)"

lemma drain_step_measure:
  assumes n: "BlockDecryptionStream_NextRead F s = Inr (Some (ptr, n), s1)"
    and r: "memread (bds_buffer s1) ptr n = Inr data"
    and a: "BlockDecryptionStream_AdvanceRead dbg n s1 = Inr (ok, s2)"
  shows "drain_measure s2 < drain_measure s"
proof -
  from r have n0: "0 \<le> n" by (simp add: memread_def split: if_splits)
  show ?thesis
  proof (cases "BlockDecryptionStream_GetAvailableRead s = 0")
    case True
    with n have d: "BlockDecryptionStream_Decrypt F s = Inr (True, s1)"
      and sp: "n = bds_readEnd s1 - bds_readPos s1"
      by (auto simp: BlockDecryptionStream_NextRead_def bindF_def
          split: sum.splits prod.splits if_splits)
    from a sp have s2: "s2 = s1\<lparr>bds_readPos := bds_readPos s1 + n\<rparr>"
      by (auto simp: BlockDecryptionStream_AdvanceRead_def bindF_def TWN_REQUIRE_def
          BlockDecryptionStream_GetAvailableRead_def split: if_splits)
    with sp have "BlockDecryptionStream_GetAvailableRead s2 = 0"
      by (simp add: BlockDecryptionStream_GetAvailableRead_def)
    with Decrypt_True_source [OF d] s2 show ?thesis
      by (simp add: drain_measure_def)
  next
    case False
    with n have s1: "s1 = s" and sp: "n = bds_readEnd s - bds_readPos s"
      by (auto simp: BlockDecryptionStream_NextRead_def bindF_def
          split: sum.splits prod.splits if_splits)
    from a sp s1 have s2: "s2 = s\<lparr>bds_readPos := bds_readPos s + n\<rparr>"
      by (auto simp: BlockDecryptionStream_AdvanceRead_def bindF_def TWN_REQUIRE_def
          BlockDecryptionStream_GetAvailableRead_def split: if_splits)
    with sp have "BlockDecryptionStream_GetAvailableRead s2 = 0"
      by (simp add: BlockDecryptionStream_GetAvailableRead_def)
    with False s2 show ?thesis
      by (simp add: drain_measure_def)
  qed
qed

function BlockDecryptionStream_drain ::
    "bool \<Rightarrow> 'k transform \<Rightarrow> byte list \<Rightarrow> 'k BlockDecryptionStream
      \<Rightarrow> fault + (byte list \<times> 'k BlockDecryptionStream)" where
  "BlockDecryptionStream_drain dbg F acc s =
     (case BlockDecryptionStream_NextRead F s of
        Inl e \<Rightarrow> Inl e
      | Inr (None, s1) \<Rightarrow> Inr (acc, s1)
      | Inr (Some (ptr, n), s1) \<Rightarrow>
          (case memread (bds_buffer s1) ptr n of
             Inl e \<Rightarrow> Inl e
           | Inr data \<Rightarrow>
               (case BlockDecryptionStream_AdvanceRead dbg n s1 of
                  Inl e \<Rightarrow> Inl e
                | Inr (ok, s2) \<Rightarrow> BlockDecryptionStream_drain dbg F (acc @ data) s2)))"
  by pat_completeness auto
termination
proof (relation "measure (\<lambda>(dbg, F, acc, s). drain_measure s)", goal_cases)
  case 1
  show ?case by simp
next
  case (2 dbg F acc s r x s1 sp ptr n data y ok s2)
  then have "BlockDecryptionStream_NextRead F s = Inr (Some (ptr, n), s1)"
    "memread (bds_buffer s1) ptr n = Inr data"
    "BlockDecryptionStream_AdvanceRead dbg n s1 = Inr (ok, s2)" by simp_all
  from drain_step_measure [OF this] show ?case by simp
qed

declare BlockDecryptionStream_drain.simps [simp del]

text \<open>
  Reading a whole stream: drain the adapter until \<^verbatim>\<open>NextRead\<close> fails, call \<^verbatim>\<open>Flush\<close>
  once, and drain what \<^verbatim>\<open>Flush\<close> exposed.
\<close>

definition BlockDecryptionStream_read_all ::
    "bool \<Rightarrow> 'k transform \<Rightarrow> 'k BlockDecryptionStream
      \<Rightarrow> fault + (byte list \<times> 'k BlockDecryptionStream)" where
  "BlockDecryptionStream_read_all dbg F s =
     bindF (BlockDecryptionStream_drain dbg F [] s) (\<lambda>(out1, s1).
       bindF (BlockDecryptionStream_Flush dbg F s1) (\<lambda>s2.
         BlockDecryptionStream_drain dbg F out1 s2))"

text \<open>
  The caller of the block encryptor: \<^verbatim>\<open>NextWrite\<close> gives the writable span, the caller
  stores its bytes there (more bytes than the span holds would land outside it) and
  commits them with \<^verbatim>\<open>AdvanceWrite\<close>. A stream is written chunk by chunk, then flushed.
\<close>

definition BlockEncryptionStream_write ::
    "'k transform \<Rightarrow> 'w copy \<Rightarrow> byte list \<Rightarrow> ('k, 'w) BlockEncryptionStream
      \<Rightarrow> fault + (bool \<times> ('k, 'w) BlockEncryptionStream)" where
  "BlockEncryptionStream_write F Copy data s =
     (case BlockEncryptionStream_NextWrite s of
        (_, (ptr, room)) \<Rightarrow>
          if int (length data) \<le> room
          then bindF (memwrite (bes_buffer s) ptr data) (\<lambda>b.
                 BlockEncryptionStream_AdvanceWrite F Copy (int (length data))
                   (s\<lparr>bes_buffer := b\<rparr>))
          else Inl OutOfBounds)"

fun BlockEncryptionStream_write_chunks ::
    "'k transform \<Rightarrow> 'w copy \<Rightarrow> byte list list \<Rightarrow> ('k, 'w) BlockEncryptionStream
      \<Rightarrow> fault + ('k, 'w) BlockEncryptionStream" where
  "BlockEncryptionStream_write_chunks F Copy [] s = Inr s"
| "BlockEncryptionStream_write_chunks F Copy (c # cs) s =
     bindF (BlockEncryptionStream_write F Copy c s) (\<lambda>(ok, s').
       if ok then BlockEncryptionStream_write_chunks F Copy cs s' else Inl SinkFailed)"

definition BlockEncryptionStream_write_all ::
    "bool \<Rightarrow> 'k transform \<Rightarrow> 'w copy \<Rightarrow> byte list list \<Rightarrow> ('k, 'w) BlockEncryptionStream
      \<Rightarrow> fault + ('k, 'w) BlockEncryptionStream" where
  "BlockEncryptionStream_write_all dbg F Copy chunks s =
     bindF (BlockEncryptionStream_write_chunks F Copy chunks s)
       (BlockEncryptionStream_Flush dbg F Copy)"

text \<open>
  Modelled from the spec: \<^verbatim>\<open>Stream::Copy\<close> into a sink that keeps every byte it is
  handed, in order (neither the helper nor a sink is part of the source).
\<close>

definition Copy_to_memory :: "byte list copy" where
  "Copy_to_memory bs d = (True, d @ bs)"

text \<open>
  The constructors. They set the cursors and the block size; the arrays are not
  initialised, so their first contents \<open>j1\<close> and \<open>j2\<close> are arbitrary.
\<close>

definition BlockEncryptionStream_ctor ::
    "'w \<Rightarrow> 'k \<Rightarrow> (nat \<Rightarrow> byte) \<Rightarrow> (nat \<Rightarrow> byte) \<Rightarrow> ('k, 'w) BlockEncryptionStream" where
  "BlockEncryptionStream_ctor dest k j1 j2 =
     \<lparr>bes_dest = dest, bes_crypto = k, bes_blockSize = 0,
      bes_buffer = map j1 [0..<4096], bes_encrypedBuffer = map j2 [0..<4096],
      bes_writePos = 0\<rparr>"

definition BlockDecryptionStream_ctor ::
    "ReadStream \<Rightarrow> 'k \<Rightarrow> (nat \<Rightarrow> byte) \<Rightarrow> (nat \<Rightarrow> byte) \<Rightarrow> 'k BlockDecryptionStream" where
  "BlockDecryptionStream_ctor source k j1 j2 =
     \<lparr>bds_source = source, bds_crypto = k, bds_blockSize = 0,
      bds_buffer = map j1 [0..<4096], bds_encrypedBuffer = map j2 [0..<4096],
      bds_readPos = 0, bds_readEnd = 0, bds_writePos = 0\<rparr>"

definition DecryptionStream_ctor ::
    "ReadStream \<Rightarrow> 'k \<Rightarrow> (nat \<Rightarrow> byte) \<Rightarrow> 'k DecryptionStream" where
  "DecryptionStream_ctor source k j1 =
     \<lparr>ds_source = source, ds_crypto = k, ds_buffer = map j1 [0..<4096],
      ds_readPos = 0, ds_readEnd = 0\<rparr>"

section \<open>Assumptions on the cipher, invariants\<close>

text \<open>
  What the adapters need of the transform: it produces as many bytes as it is given
  (\<^verbatim>\<open>written\<close> equals the length passed to \<^verbatim>\<open>Cipher\<close>).
\<close>

definition length_preserving :: "'k transform \<Rightarrow> bool" where
  "length_preserving F \<longleftrightarrow> (\<forall>k xs. length (fst (F k xs)) = length xs)"

text \<open>
  The cursors of the block decryptor: both arrays have their 4096 bytes, the cursors obey
  the invariant of the window buffer, and the withheld ciphertext has room behind the
  read end.
\<close>

definition BlockDecryptionStream_inv :: "'k BlockDecryptionStream \<Rightarrow> bool" where
  "BlockDecryptionStream_inv s \<longleftrightarrow>
     0 < bds_blockSize s
   \<and> length (bds_buffer s) = 4096 \<and> length (bds_encrypedBuffer s) = 4096
   \<and> 0 \<le> bds_readPos s \<and> bds_readPos s \<le> bds_readEnd s
   \<and> 0 \<le> bds_writePos s
   \<and> bds_readEnd s + bds_writePos s \<le> TWN_ARRAY_SIZE (bds_buffer s)"

text \<open>
  What a round trip needs of the pair of transforms. Transforming no bytes does nothing,
  and a transform may be cut at any block boundary: transforming a whole number of
  blocks and then the rest, with the session handed on, gives what transforming
  everything at once gives. Decrypting from the session \<open>kd\<close> what was encrypted from
  the session \<open>ke\<close> gives back every whole number of blocks.
\<close>

definition chunk_independent :: "int \<Rightarrow> 'k transform \<Rightarrow> bool" where
  "chunk_independent B F \<longleftrightarrow>
     (\<forall>k. F k [] = ([], k))
   \<and> (\<forall>k xs ys. int (length xs) mod B = 0 \<longrightarrow>
         F k (xs @ ys) = (case F k xs of (a, k1) \<Rightarrow> case F k1 ys of (b, k2) \<Rightarrow> (a @ b, k2)))"

definition inverse_transforms :: "int \<Rightarrow> 'k transform \<Rightarrow> 'k \<Rightarrow> 'j transform \<Rightarrow> 'j \<Rightarrow> bool" where
  "inverse_transforms B E ke D kd \<longleftrightarrow>
     (\<forall>xs. int (length xs) mod B = 0 \<longrightarrow> fst (D kd (fst (E ke xs))) = xs)"

definition cipher_pair :: "int \<Rightarrow> 'k transform \<Rightarrow> 'k \<Rightarrow> 'j transform \<Rightarrow> 'j \<Rightarrow> bool" where
  "cipher_pair B E ke D kd \<longleftrightarrow>
     length_preserving E \<and> length_preserving D
   \<and> chunk_independent B E \<and> chunk_independent B D
   \<and> inverse_transforms B E ke D kd"

text \<open>The cursors of the block encryptor and of the stream decryptor.\<close>

definition BlockEncryptionStream_inv :: "('k, 'w) BlockEncryptionStream \<Rightarrow> bool" where
  "BlockEncryptionStream_inv s \<longleftrightarrow>
     0 < bes_blockSize s
   \<and> length (bes_buffer s) = 4096 \<and> length (bes_encrypedBuffer s) = 4096
   \<and> 0 \<le> bes_writePos s \<and> bes_writePos s \<le> TWN_ARRAY_SIZE (bes_buffer s)"

definition DecryptionStream_inv :: "'k DecryptionStream \<Rightarrow> bool" where
  "DecryptionStream_inv s \<longleftrightarrow>
     length (ds_buffer s) = 4096
   \<and> 0 \<le> ds_readPos s \<and> ds_readPos s \<le> ds_readEnd s
   \<and> ds_readEnd s \<le> TWN_ARRAY_SIZE (ds_buffer s)"

text \<open>
  What an adapter holds, read off its arrays: the bytes the encryptor has accumulated
  and not yet transformed; the ciphertext the decryptor has not yet transformed (what it
  withholds, then what the source still has); the plaintext in the decryptor's window.
\<close>

definition BlockEncryptionStream_pending :: "('k, 'w) BlockEncryptionStream \<Rightarrow> byte list" where
  "BlockEncryptionStream_pending s = take (nat (bes_writePos s)) (bes_buffer s)"

definition BlockDecryptionStream_pending :: "'k BlockDecryptionStream \<Rightarrow> byte list" where
  "BlockDecryptionStream_pending s =
     take (nat (bds_writePos s)) (bds_encrypedBuffer s) @ concat (bds_source s)"

definition BlockDecryptionStream_window :: "'k BlockDecryptionStream \<Rightarrow> byte list" where
  "BlockDecryptionStream_window s =
     take (nat (bds_readEnd s - bds_readPos s)) (drop (nat (bds_readPos s)) (bds_buffer s))"

text \<open>
  Of \<open>n\<close> accumulated ciphertext bytes a pass of \<^verbatim>\<open>Decrypt\<close> transforms the whole blocks
  less one block, when that is positive (\<^verbatim>\<open>bytesToRead\<close>), and withholds the rest.
\<close>

definition bytesToRead :: "int \<Rightarrow> int \<Rightarrow> int" where
  "bytesToRead B n = (if n - n mod B - B > 0 then n - n mod B - B else 0)"

text \<open>Every span that the source hands out is shorter than \<open>2^31\<close> bytes.\<close>

definition spans_fit_int :: "ReadStream \<Rightarrow> bool" where
  "spans_fit_int src = list_all (\<lambda>c. int (length c) < 2 ^ 31) src"

text \<open>
  An operation stays within the window when it ends without an access outside an array
  (and without a division by zero) and the adapter it leaves obeys the invariant.
  The fatal ends that the source provides for remain possible.
\<close>

definition in_window :: "('s \<Rightarrow> bool) \<Rightarrow> fault + 's \<Rightarrow> bool" where
  "in_window P r = (case r of Inl e \<Rightarrow> e \<noteq> OutOfBounds \<and> e \<noteq> DivisionByZero | Inr s \<Rightarrow> P s)"

definition state_of :: "fault + ('a \<times> 's) \<Rightarrow> fault + 's" where
  "state_of r = (case r of Inl e \<Rightarrow> Inl e | Inr (x, s) \<Rightarrow> Inr s)"

text \<open>Two transforms to run the adapters on: a byte-wise shift by the session's key byte.\<close>

definition add_cipher :: "byte transform" where
  "add_cipher k xs = (map (\<lambda>b. b + k) xs, k)"

definition sub_cipher :: "byte transform" where
  "sub_cipher k xs = (map (\<lambda>b. b - k) xs, k)"

section \<open>Arithmetic of the source's integer types\<close>

lemma static_cast_int_small: "uint n < 2 ^ 31 \<Longrightarrow> static_cast_int n = uint n"
proof -
  assume a: "uint n < 2 ^ 31"
  have "(ucast n :: 32 word) = word_of_int (uint n)" by simp
  then have "sint (ucast n :: 32 word) = signed_take_bit 31 (uint n)"
    by (simp add: sint_sbintrunc' del: of_int_uint)
  also have "\<dots> = uint n"
    using a by (intro signed_take_bit_int_eq_self) (auto intro: order_trans [of _ 0])
  finally show ?thesis by (simp add: static_cast_int_def)
qed

lemma smod_pos: "0 \<le> a \<Longrightarrow> 0 < b \<Longrightarrow> a smod b = a mod (b::int)"
  using smod_mod_positive by force

lemma c_rem_pos: "0 \<le> a \<Longrightarrow> 0 < b \<Longrightarrow> c_rem a b = Inr (a mod b)"
  by (simp add: c_rem_def smod_pos)

section \<open>AdvanceRead\<close>

text \<open>
  Claim C8. \<^verbatim>\<open>AdvanceRead(n)\<close> of the stream decryptor and of the block decryptor: with
  \<open>n\<close> at most the available bytes (read end minus read position) the read position
  moves by exactly \<open>n\<close> and the call returns success; with \<open>n\<close> above it nothing of the
  adapter changes and the call fails: it returns failure, or halts at \<^verbatim>\<open>TWN_REQUIRE\<close>
  in a build where that macro halts.
\<close>

theorem AdvanceRead_contract:
  "(bytes \<le> DecryptionStream_GetAvailableRead s \<longrightarrow>
      DecryptionStream_AdvanceRead dbg bytes s
        = Inr (True, s\<lparr>ds_readPos := ds_readPos s + bytes\<rparr>))
 \<and> (bytes > DecryptionStream_GetAvailableRead s \<longrightarrow>
      DecryptionStream_AdvanceRead dbg bytes s
        = (if dbg then Inl RequireFailed else Inr (False, s)))
 \<and> (bytes \<le> BlockDecryptionStream_GetAvailableRead t \<longrightarrow>
      BlockDecryptionStream_AdvanceRead dbg bytes t
        = Inr (True, t\<lparr>bds_readPos := bds_readPos t + bytes\<rparr>))
 \<and> (bytes > BlockDecryptionStream_GetAvailableRead t \<longrightarrow>
      BlockDecryptionStream_AdvanceRead dbg bytes t
        = (if dbg then Inl RequireFailed else Inr (False, t)))"
  by (simp add: DecryptionStream_AdvanceRead_def BlockDecryptionStream_AdvanceRead_def
      TWN_REQUIRE_def bindF_def)

theorem AdvanceRead_contract_witness:
  "DecryptionStream_AdvanceRead False 3
      \<lparr>ds_source = [], ds_crypto = (), ds_buffer = replicate 4096 0,
       ds_readPos = 1, ds_readEnd = 5\<rparr>
     = Inr (True, \<lparr>ds_source = [], ds_crypto = (), ds_buffer = replicate 4096 0,
                  ds_readPos = 4, ds_readEnd = 5\<rparr>)
 \<and> DecryptionStream_AdvanceRead False 5
      \<lparr>ds_source = [], ds_crypto = (), ds_buffer = replicate 4096 0,
       ds_readPos = 1, ds_readEnd = 5\<rparr>
     = Inr (False, \<lparr>ds_source = [], ds_crypto = (), ds_buffer = replicate 4096 0,
                   ds_readPos = 1, ds_readEnd = 5\<rparr>)
 \<and> BlockDecryptionStream_AdvanceRead False 3
      \<lparr>bds_source = [], bds_crypto = (), bds_blockSize = 16, bds_buffer = replicate 4096 0,
       bds_encrypedBuffer = replicate 4096 0, bds_readPos = 0, bds_readEnd = 4,
       bds_writePos = 0\<rparr>
     = Inr (True,
        \<lparr>bds_source = [], bds_crypto = (), bds_blockSize = 16, bds_buffer = replicate 4096 0,
         bds_encrypedBuffer = replicate 4096 0, bds_readPos = 3, bds_readEnd = 4,
         bds_writePos = 0\<rparr>)
 \<and> BlockDecryptionStream_AdvanceRead False 5
      \<lparr>bds_source = [], bds_crypto = (), bds_blockSize = 16, bds_buffer = replicate 4096 0,
       bds_encrypedBuffer = replicate 4096 0, bds_readPos = 0, bds_readEnd = 4,
       bds_writePos = 0\<rparr>
     = Inr (False,
        \<lparr>bds_source = [], bds_crypto = (), bds_blockSize = 16, bds_buffer = replicate 4096 0,
         bds_encrypedBuffer = replicate 4096 0, bds_readPos = 0, bds_readEnd = 4,
         bds_writePos = 0\<rparr>)"
  using
    AdvanceRead_contract [of 3 "\<lparr>ds_source = [], ds_crypto = (), ds_buffer = replicate 4096 0,
       ds_readPos = 1, ds_readEnd = 5\<rparr>" False
      "\<lparr>bds_source = [], bds_crypto = (), bds_blockSize = 16, bds_buffer = replicate 4096 0,
       bds_encrypedBuffer = replicate 4096 0, bds_readPos = 0, bds_readEnd = 4,
       bds_writePos = 0\<rparr>"]
    AdvanceRead_contract [of 5 "\<lparr>ds_source = [], ds_crypto = (), ds_buffer = replicate 4096 0,
       ds_readPos = 1, ds_readEnd = 5\<rparr>" False
      "\<lparr>bds_source = [], bds_crypto = (), bds_blockSize = 16, bds_buffer = replicate 4096 0,
       bds_encrypedBuffer = replicate 4096 0, bds_readPos = 0, bds_readEnd = 4,
       bds_writePos = 0\<rparr>"]
  by (simp add: DecryptionStream_GetAvailableRead_def BlockDecryptionStream_GetAvailableRead_def)

section \<open>Basic facts\<close>

lemma memread_ok: "0 \<le> off \<Longrightarrow> 0 \<le> n \<Longrightarrow> off + n \<le> int (length a)
   \<Longrightarrow> memread a off n = Inr (take (nat n) (drop (nat off) a))"
  by (simp add: memread_def)

lemma memwrite_ok: "0 \<le> off \<Longrightarrow> off + int (length bs) \<le> int (length a)
   \<Longrightarrow> memwrite a off bs = Inr (take (nat off) a @ bs @ drop (nat off + length bs) a)"
  by (simp add: memwrite_def)

lemma Pad_eq:
  assumes "0 < B" "0 \<le> dataLen" "bufferLen \<le> TWN_ARRAY_SIZE buffer"
  shows "BlockEncryptionStream_Pad B buffer bufferLen dataLen =
     (if dataLen + (B - dataLen mod B) < bufferLen
      then Inr (B - dataLen mod B,
                take (nat dataLen) buffer @ replicate (nat (B - dataLen mod B - 1)) 0
                  @ [word_of_int (B - dataLen mod B)]
                  @ drop (nat (dataLen + (B - dataLen mod B))) buffer)
      else Inl PaddingNoSpace)"
proof -
  have p: "1 \<le> B - dataLen mod B"
    using pos_mod_bound [OF assms(1), of dataLen] by linarith
  have len: "int (length (padding_bytes (B - dataLen mod B))) = B - dataLen mod B"
    using p by (simp add: padding_bytes_def)
  show ?thesis
  proof (cases "dataLen + (B - dataLen mod B) < bufferLen")
    case True
    have w: "memwrite buffer dataLen (padding_bytes (B - dataLen mod B))
        = Inr (take (nat dataLen) buffer @ padding_bytes (B - dataLen mod B)
               @ drop (nat dataLen + length (padding_bytes (B - dataLen mod B))) buffer)"
      using True assms len by (intro memwrite_ok) (simp_all add: TWN_ARRAY_SIZE_def)
    have d: "nat dataLen + length (padding_bytes (B - dataLen mod B))
           = nat (dataLen + (B - dataLen mod B))"
      using len assms(2) p by linarith
    show ?thesis
      using True assms
      by (simp add: BlockEncryptionStream_Pad_def c_rem_pos Let_def w d)
         (simp add: padding_bytes_def)
  next
    case False
    then show ?thesis using assms
      by (simp add: BlockEncryptionStream_Pad_def c_rem_pos Let_def)
  qed
qed

text \<open>
  Claim C4 as stated fails at block size 256 with no data: the padding is 256 bytes
  long and its last byte, which should equal the padding length, is 0.
\<close>

theorem Pad_counterexample:
  "BlockEncryptionStream_Pad 256 (replicate 4096 1) 4096 0
     = Inr (256, replicate 255 0 @ [0] @ replicate 3840 1)
   \<and> uint (0 :: byte) \<noteq> 256"
  by (simp add: BlockEncryptionStream_Pad_def c_rem_def padding_bytes_def memwrite_def)

lemma length_preservingD: "length_preserving F \<Longrightarrow> F k xs = (out, k') \<Longrightarrow> length out = length xs"
  unfolding length_preserving_def by (metis fst_conv)

lemma Cipher_eq:
  assumes "F k (take (nat n) src) = (out, k')" "0 \<le> n" "n \<le> int (length src)"
    "0 \<le> off" "off + int (length out) \<le> int (length dst)"
  shows "Cipher F k src dst off n
       = Inr (int (length out), take (nat off) dst @ out @ drop (nat off + length out) dst, k')"
  using assms by (simp add: Cipher_def memread_ok memwrite_ok)

lemma nth_window_last:
  assumes "out \<noteq> []"
  shows "(xs @ out @ ys) ! (length xs + length out - 1) = last out"
proof -
  have "(xs @ out @ ys) ! (length xs + (length out - 1)) = (out @ ys) ! (length out - 1)"
    by (simp only: nth_append_length_plus)
  also have "\<dots> = out ! (length out - 1)"
    using assms by (simp add: nth_append)
  also have "\<dots> = last out"
    using assms by (simp add: last_conv_nth)
  finally show ?thesis using assms
    by (cases out) simp_all
qed

lemma BlockDecryptionStream_Flush_eq:
  assumes inv: "BlockDecryptionStream_inv s"
    and lp: "length_preserving F"
    and al: "dbg \<longrightarrow> bds_writePos s mod bds_blockSize s = 0"
    and F: "F (bds_crypto s) (take (nat (bds_writePos s)) (bds_encrypedBuffer s)) = (out, k')"
  shows "BlockDecryptionStream_Flush dbg F s =
     (if out = [] then Inr (s\<lparr>bds_crypto := k', bds_writePos := 0\<rparr>)
      else if uint (last out) \<le> bds_blockSize s
      then Inr (s\<lparr>bds_crypto := k',
                  bds_buffer := take (nat (bds_readEnd s)) (bds_buffer s) @ out
                      @ drop (nat (bds_readEnd s) + length out) (bds_buffer s),
                  bds_readEnd := bds_readEnd s + int (length out) - uint (last out),
                  bds_writePos := 0\<rparr>)
      else Inl InvalidPadding)"
proof -
  from inv have B: "0 < bds_blockSize s" and w0: "0 \<le> bds_writePos s"
    and e0: "0 \<le> bds_readEnd s"
    and fit: "bds_readEnd s + bds_writePos s \<le> int (length (bds_buffer s))"
    and len: "length (bds_encrypedBuffer s) = length (bds_buffer s)"
    by (auto simp: BlockDecryptionStream_inv_def TWN_ARRAY_SIZE_def)
  have wle: "bds_writePos s \<le> int (length (bds_encrypedBuffer s))"
    using fit e0 len by simp
  have lout: "int (length out) = bds_writePos s"
    using length_preservingD [OF lp F] wle w0 by simp
  have C: "Cipher F (bds_crypto s) (bds_encrypedBuffer s) (bds_buffer s) (bds_readEnd s)
              (bds_writePos s)
         = Inr (int (length out), take (nat (bds_readEnd s)) (bds_buffer s) @ out
                  @ drop (nat (bds_readEnd s) + length out) (bds_buffer s), k')"
    using F w0 wle e0 fit lout by (intro Cipher_eq) simp_all
  have r1: "c_rem (bds_writePos s) (bds_blockSize s) = Inr (bds_writePos s mod bds_blockSize s)"
    using w0 B by (rule c_rem_pos)
  have q1: "TWN_REQUIRE dbg (bds_writePos s mod bds_blockSize s = 0) = Inr ()"
    using al by (auto simp: TWN_REQUIRE_def)
  have q2: "TWN_REQUIRE dbg (bds_writePos s \<le> TWN_ARRAY_SIZE (bds_buffer s) + bds_readEnd s)
       = Inr ()"
    using fit e0 by (simp add: TWN_REQUIRE_def TWN_ARRAY_SIZE_def)
  show ?thesis
  proof (cases "out = []")
    case True
    then show ?thesis
      by (simp add: BlockDecryptionStream_Flush_def BlockDecryptionStream_GetUsedWrite_def
          Let_def r1 q1 q2 C)
  next
    case False
    have idx: "nat (bds_readEnd s + int (length out) - 1)
         = length (take (nat (bds_readEnd s)) (bds_buffer s)) + length out - 1"
    proof -
      have "nat (bds_readEnd s) \<le> length (bds_buffer s)" using e0 fit w0 by linarith
      then have "length (take (nat (bds_readEnd s)) (bds_buffer s)) = nat (bds_readEnd s)"
        by simp
      moreover have "1 \<le> length out" using False by (cases out) simp_all
      ultimately show ?thesis using e0 by linarith
    qed
    have rd: "memread1 (take (nat (bds_readEnd s)) (bds_buffer s) @ out
                  @ drop (nat (bds_readEnd s) + length out) (bds_buffer s))
                (bds_readEnd s + int (length out) - 1) = Inr (last out)"
    proof -
      have "1 \<le> length out" using False by (cases out) simp_all
      then have "0 \<le> bds_readEnd s + int (length out) - 1"
        "bds_readEnd s + int (length out) - 1
           < int (length (take (nat (bds_readEnd s)) (bds_buffer s) @ out
                  @ drop (nat (bds_readEnd s) + length out) (bds_buffer s)))"
        using e0 fit lout by simp_all
      then show ?thesis
        unfolding memread1_def idx nth_window_last [OF False] by simp
    qed
    show ?thesis using False
      by (simp add: BlockDecryptionStream_Flush_def BlockDecryptionStream_GetUsedWrite_def
          Let_def r1 q1 q2 C rd)
  qed
qed

lemma length_preserving_sub_cipher: "length_preserving sub_cipher"
  by (simp add: length_preserving_def sub_cipher_def)

lemma AdvanceWrite_blockSize:
  "BlockEncryptionStream_AdvanceWrite F Copy n s = Inr (ok, s') \<Longrightarrow> bes_blockSize s' = bes_blockSize s"
  by (auto simp: BlockEncryptionStream_AdvanceWrite_def bindF_def Let_def
      split: if_splits sum.splits prod.splits)

lemma BES_Flush_blockSize:
  "BlockEncryptionStream_Flush dbg F Copy s = Inr s' \<Longrightarrow> bes_blockSize s' = bes_blockSize s"
  by (auto simp: BlockEncryptionStream_Flush_def bindF_def Let_def
      split: if_splits sum.splits prod.splits dest!: AdvanceWrite_blockSize)

lemma Decrypt_pass_blockSize:
  "BlockDecryptionStream_Decrypt_pass F buffer s = Inr (len, s') \<Longrightarrow> bds_blockSize s' = bds_blockSize s"
  by (auto simp: BlockDecryptionStream_Decrypt_pass_def bindF_def Let_def
      split: if_splits sum.splits prod.splits)

lemma Decrypt_loop_blockSize:
  "BlockDecryptionStream_Decrypt_loop F n s = Inr (m, s') \<Longrightarrow> bds_blockSize s' = bds_blockSize s"
proof (induction F n s rule: BlockDecryptionStream_Decrypt_loop.induct)
  case (1 F bytesRead s)
  show ?case
  proof (cases "BlockDecryptionStream_GetAvailableWrite s > 0
         \<and> BlockDecryptionStream_GetAvailableRead s < bds_blockSize s")
    case False
    with "1.prems" show ?thesis
      by (simp add: BlockDecryptionStream_Decrypt_loop.simps [of F bytesRead s])
  next
    case g: True
    show ?thesis
    proof (cases "ReadStream_NextRead (bds_source s)")
      case None
      with g "1.prems" show ?thesis
        by (simp add: BlockDecryptionStream_Decrypt_loop.simps [of F bytesRead s])
    next
      case (Some buffer)
      show ?thesis
      proof (cases "BlockDecryptionStream_Decrypt_pass F buffer s")
        case (Inl e)
        with g Some "1.prems" show ?thesis
          by (simp add: BlockDecryptionStream_Decrypt_loop.simps [of F bytesRead s])
      next
        case (Inr r)
        obtain len s1 where r: "r = (len, s1)" by (cases r)
        from g Some Inr r "1.prems"
        have "BlockDecryptionStream_Decrypt_loop F (bytesRead + len) s1 = Inr (m, s')"
          by (simp add: BlockDecryptionStream_Decrypt_loop.simps [of F bytesRead s])
        from "1.IH" [OF g Some Inr r [symmetric] this] Decrypt_pass_blockSize [of F buffer s len s1]
          Inr r
        show ?thesis by simp
      qed
    qed
  qed
qed

lemma Decrypt_blockSize:
  "BlockDecryptionStream_Decrypt F s = Inr (ok, s') \<Longrightarrow> bds_blockSize s' = bds_blockSize s"
  by (auto simp: BlockDecryptionStream_Decrypt_def bindF_def split: sum.splits prod.splits
      dest!: Decrypt_loop_blockSize)

lemma BDS_Flush_blockSize:
  "BlockDecryptionStream_Flush dbg F s = Inr s' \<Longrightarrow> bds_blockSize s' = bds_blockSize s"
  by (auto simp: BlockDecryptionStream_Flush_def bindF_def Let_def
      split: if_splits sum.splits prod.splits)

text \<open>
  Claim C9. \<^verbatim>\<open>Init\<close> of the block encryptor and of the block decryptor sets the block
  size to its \<open>keySize\<close> argument (a key size that fits the \<^verbatim>\<open>int\<close> it is cast to),
  whatever the cipher's own block size and whatever \<^verbatim>\<open>m_crypto.Init\<close> returns. The
  lemmas above show that no later operation changes the field the arithmetic reads.
\<close>

theorem Init_blockSize_is_keySize:
  assumes "uint keySize < 2 ^ 31"
  shows "bes_blockSize (snd (BlockEncryptionStream_Init I keySize s)) = uint keySize
       \<and> bds_blockSize (snd (BlockDecryptionStream_Init J keySize t)) = uint keySize"
  using assms
  by (simp add: BlockEncryptionStream_Init_def BlockDecryptionStream_Init_def Let_def
      static_cast_int_small split: prod.splits)

text \<open>
  Claim C4, amended. For a block size \<open>B > 0\<close> and a data length \<open>dataLen \<ge> 0\<close> the
  padding has length \<open>padLen = B - dataLen mod B\<close>, between 1 and \<open>B\<close>, and \<open>B\<close> when
  \<open>dataLen\<close> is a multiple of \<open>B\<close>. \<^verbatim>\<open>Pad\<close> appends it only when
  \<open>dataLen + padLen\<close> is strictly below the buffer length, and fails fatally otherwise.
  The content is \<open>padLen - 1\<close> zero bytes and one \<^verbatim>\<open>uint8_t\<close> that holds
  \<open>padLen mod 256\<close>: it equals \<open>padLen\<close> up to 255.
\<close>

theorem Pad_length_and_content:
  assumes "0 < B" and "0 \<le> dataLen" and "bufferLen \<le> TWN_ARRAY_SIZE buffer"
  shows "1 \<le> B - dataLen mod B \<and> B - dataLen mod B \<le> B
       \<and> (dataLen mod B = 0 \<longrightarrow> B - dataLen mod B = B)
       \<and> BlockEncryptionStream_Pad B buffer bufferLen dataLen =
           (if dataLen + (B - dataLen mod B) < bufferLen
            then Inr (B - dataLen mod B,
                      take (nat dataLen) buffer @ replicate (nat (B - dataLen mod B - 1)) 0
                        @ [word_of_int (B - dataLen mod B)]
                        @ drop (nat (dataLen + (B - dataLen mod B))) buffer)
            else Inl PaddingNoSpace)
       \<and> uint (word_of_int (B - dataLen mod B) :: byte) = (B - dataLen mod B) mod 256"
proof -
  have m: "dataLen mod B < B" "0 \<le> dataLen mod B"
    using assms(1) by simp_all
  have u: "uint (word_of_int x :: byte) = x mod 256" for x
    by (simp add: uint_word_of_int)
  from m have a: "1 \<le> B - dataLen mod B" "B - dataLen mod B \<le> B"
    "dataLen mod B = 0 \<longrightarrow> B - dataLen mod B = B" by simp_all
  show ?thesis
    by (intro conjI) (rule a Pad_eq [OF assms] u [of "B - dataLen mod B"])+
qed

theorem Pad_length_and_content_witness:
  "BlockEncryptionStream_Pad 16 (replicate 4096 7) 4096 4
     = Inr (12, replicate 4 7 @ replicate 11 0 @ [12] @ replicate 4080 7)
   \<and> uint (12 :: byte) = 12
   \<and> BlockEncryptionStream_Pad 16 (replicate 4096 7) 4096 4080 = Inl PaddingNoSpace"
  using Pad_length_and_content [of 16 4 4096 "replicate 4096 7"]
    Pad_length_and_content [of 16 4080 4096 "replicate 4096 7"]
  by (simp add: TWN_ARRAY_SIZE_def)

text \<open>
  Claim C3. \<^verbatim>\<open>Flush\<close> of the block decryptor, with a positive whole number of blocks in
  the ciphertext buffer: when the last byte of what the transform produced is above the
  block size, \<^verbatim>\<open>Flush\<close> ends in the fatal \<open>InvalidPadding\<close> and returns no adapter to
  read from; otherwise the read end is the extended read end less that byte, the read
  position is unchanged and the ciphertext buffer is empty.
\<close>

theorem Flush_padding_check:
  assumes "BlockDecryptionStream_inv s" and "length_preserving F"
    and "0 < bds_writePos s" and "bds_writePos s mod bds_blockSize s = 0"
  shows "(uint (last (fst (F (bds_crypto s)
                 (take (nat (bds_writePos s)) (bds_encrypedBuffer s))))) > bds_blockSize s
          \<longrightarrow> BlockDecryptionStream_Flush dbg F s = Inl InvalidPadding)
       \<and> (uint (last (fst (F (bds_crypto s)
                 (take (nat (bds_writePos s)) (bds_encrypedBuffer s))))) \<le> bds_blockSize s
          \<longrightarrow> (\<exists>s'. BlockDecryptionStream_Flush dbg F s = Inr s'
                \<and> bds_readEnd s' = bds_readEnd s + bds_writePos s
                     - uint (last (fst (F (bds_crypto s)
                          (take (nat (bds_writePos s)) (bds_encrypedBuffer s)))))
                \<and> bds_readPos s' = bds_readPos s
                \<and> bds_writePos s' = 0))"
proof -
  obtain out k' where F: "F (bds_crypto s) (take (nat (bds_writePos s)) (bds_encrypedBuffer s))
      = (out, k')" by (cases "F (bds_crypto s) (take (nat (bds_writePos s)) (bds_encrypedBuffer s))")
  from assms(1) have "0 \<le> bds_readEnd s" "0 \<le> bds_writePos s"
    "bds_readEnd s + bds_writePos s \<le> int (length (bds_buffer s))"
    "length (bds_encrypedBuffer s) = length (bds_buffer s)"
    by (auto simp: BlockDecryptionStream_inv_def TWN_ARRAY_SIZE_def)
  then have lout: "int (length out) = bds_writePos s"
    using length_preservingD [OF assms(2) F] by simp
  with assms(3) have ne: "out \<noteq> []" by auto
  show ?thesis
    using BlockDecryptionStream_Flush_eq [OF assms(1,2) _ F, of dbg] assms(4) ne lout
    by (simp add: F)
qed

lemma Pad_never_empty:
  assumes "0 < B" "0 \<le> dataLen" "BlockEncryptionStream_Pad B buffer bufferLen dataLen = Inr (p, b')"
  shows "1 \<le> p"
proof -
  from assms have "p = B - dataLen mod B"
    by (auto simp: BlockEncryptionStream_Pad_def c_rem_pos Let_def bindF_def
        split: if_splits sum.splits)
  then show ?thesis
    using pos_mod_bound [OF assms(1), of dataLen] by linarith
qed

theorem Flush_padding_check_witness:
  "BlockDecryptionStream_Flush True sub_cipher
      \<lparr>bds_source = [], bds_crypto = 1, bds_blockSize = 4, bds_buffer = replicate 4096 0,
       bds_encrypedBuffer = [2, 3, 4, 6] @ replicate 4092 0, bds_readPos = 0, bds_readEnd = 0,
       bds_writePos = 4\<rparr> = Inl InvalidPadding
 \<and> (\<exists>s'. BlockDecryptionStream_Flush True sub_cipher
      \<lparr>bds_source = [], bds_crypto = 1, bds_blockSize = 4, bds_buffer = replicate 4096 0,
       bds_encrypedBuffer = [8, 9, 1, 3] @ replicate 4092 0, bds_readPos = 0, bds_readEnd = 0,
       bds_writePos = 4\<rparr> = Inr s'
      \<and> bds_readEnd s' = 2 \<and> bds_readPos s' = 0 \<and> bds_writePos s' = 0)"
  using
    Flush_padding_check [of "\<lparr>bds_source = [], bds_crypto = 1, bds_blockSize = 4,
       bds_buffer = replicate 4096 0,
       bds_encrypedBuffer = [2, 3, 4, 6] @ replicate 4092 0, bds_readPos = 0, bds_readEnd = 0,
       bds_writePos = 4\<rparr>" sub_cipher True]
    Flush_padding_check [of "\<lparr>bds_source = [], bds_crypto = 1, bds_blockSize = 4,
       bds_buffer = replicate 4096 0,
       bds_encrypedBuffer = [8, 9, 1, 3] @ replicate 4092 0, bds_readPos = 0, bds_readEnd = 0,
       bds_writePos = 4\<rparr>" sub_cipher True]
    length_preserving_sub_cipher
  by (simp add: BlockDecryptionStream_inv_def TWN_ARRAY_SIZE_def sub_cipher_def)

text \<open>
  Claim C10. When the last byte of the final block decrypts to 0, \<^verbatim>\<open>Flush\<close> accepts it
  and the read end moves over the whole block, the zero byte included, although the
  padding that \<^verbatim>\<open>Pad\<close> returns is never shorter than one byte.
\<close>

theorem Flush_accepts_zero_padding:
  assumes "BlockDecryptionStream_inv s" and "length_preserving F"
    and "0 < bds_writePos s" and "dbg \<longrightarrow> bds_writePos s mod bds_blockSize s = 0"
    and "F (bds_crypto s) (take (nat (bds_writePos s)) (bds_encrypedBuffer s)) = (out, k')"
    and "last out = 0"
  shows "BlockDecryptionStream_Flush dbg F s
           = Inr (s\<lparr>bds_crypto := k',
                    bds_buffer := take (nat (bds_readEnd s)) (bds_buffer s) @ out
                        @ drop (nat (bds_readEnd s) + length out) (bds_buffer s),
                    bds_readEnd := bds_readEnd s + bds_writePos s,
                    bds_writePos := 0\<rparr>)
       \<and> (\<forall>buffer bufferLen dataLen p b'.
            0 \<le> dataLen
            \<and> BlockEncryptionStream_Pad (bds_blockSize s) buffer bufferLen dataLen = Inr (p, b')
            \<longrightarrow> 1 \<le> p)"
proof -
  from assms(1) have B: "0 < bds_blockSize s" "0 \<le> bds_readEnd s" "0 \<le> bds_writePos s"
    "bds_readEnd s + bds_writePos s \<le> int (length (bds_buffer s))"
    "length (bds_encrypedBuffer s) = length (bds_buffer s)"
    by (auto simp: BlockDecryptionStream_inv_def TWN_ARRAY_SIZE_def)
  then have lout: "int (length out) = bds_writePos s"
    using length_preservingD [OF assms(2,5)] by simp
  with assms(3) have ne: "out \<noteq> []" by auto
  have 1: "BlockDecryptionStream_Flush dbg F s
           = Inr (s\<lparr>bds_crypto := k',
                    bds_buffer := take (nat (bds_readEnd s)) (bds_buffer s) @ out
                        @ drop (nat (bds_readEnd s) + length out) (bds_buffer s),
                    bds_readEnd := bds_readEnd s + bds_writePos s,
                    bds_writePos := 0\<rparr>)"
    using BlockDecryptionStream_Flush_eq [OF assms(1,2,4,5)] ne lout assms(6) B(1)
    by simp
  show ?thesis
    using 1 Pad_never_empty [OF B(1)] by blast
qed

theorem Flush_accepts_zero_padding_witness:
  "BlockDecryptionStream_Flush True sub_cipher
      \<lparr>bds_source = [], bds_crypto = 1, bds_blockSize = 4, bds_buffer = replicate 4096 7,
       bds_encrypedBuffer = [8, 9, 1, 1] @ replicate 4092 0, bds_readPos = 0, bds_readEnd = 0,
       bds_writePos = 4\<rparr>
   = Inr \<lparr>bds_source = [], bds_crypto = 1, bds_blockSize = 4,
          bds_buffer = [7, 8, 0, 0] @ replicate 4092 7,
          bds_encrypedBuffer = [8, 9, 1, 1] @ replicate 4092 0, bds_readPos = 0,
          bds_readEnd = 4, bds_writePos = 0\<rparr>"
  using
    Flush_accepts_zero_padding [of "\<lparr>bds_source = [], bds_crypto = 1, bds_blockSize = 4,
       bds_buffer = replicate 4096 7,
       bds_encrypedBuffer = [8, 9, 1, 1] @ replicate 4092 0, bds_readPos = 0, bds_readEnd = 0,
       bds_writePos = 4\<rparr>" sub_cipher True "[7, 8, 0, 0]" 1]
    length_preserving_sub_cipher
  by (simp add: BlockDecryptionStream_inv_def TWN_ARRAY_SIZE_def sub_cipher_def)

theorem Init_blockSize_is_keySize_witness:
  "bes_blockSize (snd (BlockEncryptionStream_Init (\<lambda>n e m k. (True, k)) 32
       \<lparr>bes_dest = ([] :: byte list), bes_crypto = (1 :: byte), bes_blockSize = 0,
        bes_buffer = replicate 4096 0, bes_encrypedBuffer = replicate 4096 0,
        bes_writePos = 0\<rparr>)) = 32
 \<and> bds_blockSize (snd (BlockDecryptionStream_Init (\<lambda>n e m k. (True, k)) 32
       \<lparr>bds_source = [], bds_crypto = (1 :: byte), bds_blockSize = 0,
        bds_buffer = replicate 4096 0, bds_encrypedBuffer = replicate 4096 0,
        bds_readPos = 0, bds_readEnd = 0, bds_writePos = 0\<rparr>)) = 32"
  using Init_blockSize_is_keySize [of 32 "\<lambda>n e m k. (True, k)"
       "\<lparr>bes_dest = ([] :: byte list), bes_crypto = (1 :: byte), bes_blockSize = 0,
        bes_buffer = replicate 4096 0, bes_encrypedBuffer = replicate 4096 0,
        bes_writePos = 0\<rparr>" "\<lambda>n e m k. (True, k)"
       "\<lparr>bds_source = [], bds_crypto = (1 :: byte), bds_blockSize = 0,
        bds_buffer = replicate 4096 0, bds_encrypedBuffer = replicate 4096 0,
        bds_readPos = 0, bds_readEnd = 0, bds_writePos = 0\<rparr>"]
  by simp

section \<open>The block encryptor, step by step\<close>

lemma length_take_nat:
  assumes "0 \<le> a" "a \<le> int (length xs)"
  shows "length (take (nat a) xs) = nat a" and "int (length (take (nat a) xs)) = a"
proof -
  have "nat a \<le> length xs" using assms by linarith
  then show "length (take (nat a) xs) = nat a" by simp
  then show "int (length (take (nat a) xs)) = a" using assms(1) by simp
qed

lemma AdvanceWrite_buffered:
  assumes "bytes + bes_writePos s < bes_blockSize s"
  shows "BlockEncryptionStream_AdvanceWrite F Copy bytes s
       = Inr (True, s\<lparr>bes_writePos := bes_writePos s + bytes\<rparr>)"
  using assms
  by (simp add: BlockEncryptionStream_AdvanceWrite_def BlockEncryptionStream_GetAvailableRead_def
      Let_def)

lemma AdvanceWrite_transform:
  assumes B: "0 < bes_blockSize s"
    and ge: "bes_blockSize s \<le> bytes + bes_writePos s"
    and fit: "bytes + bes_writePos s \<le> TWN_ARRAY_SIZE (bes_buffer s)"
    and len: "length (bes_encrypedBuffer s) = length (bes_buffer s)"
    and lp: "length_preserving F"
    and F: "F (bes_crypto s)
              (take (nat (bytes + bes_writePos s - (bytes + bes_writePos s) mod bes_blockSize s))
                 (bes_buffer s)) = (out, k')"
    and C: "Copy out (bes_dest s) = (ok, d')"
  shows "BlockEncryptionStream_AdvanceWrite F Copy bytes s
       = Inr (ok, s\<lparr>bes_dest := d', bes_crypto := k',
                    bes_buffer :=
                      take (nat ((bytes + bes_writePos s) mod bes_blockSize s))
                        (drop (nat (bytes + bes_writePos s
                                  - (bytes + bes_writePos s) mod bes_blockSize s)) (bes_buffer s))
                      @ drop (nat ((bytes + bes_writePos s) mod bes_blockSize s)) (bes_buffer s),
                    bes_encrypedBuffer := out @ drop (length out) (bes_encrypedBuffer s),
                    bes_writePos := (bytes + bes_writePos s) mod bes_blockSize s\<rparr>)"
proof -
  define total where "total = bytes + bes_writePos s"
  define r where "r = total mod bes_blockSize s"
  define a where "a = total - r"
  have t0: "0 \<le> total" using B ge by (simp add: total_def)
  have r0: "0 \<le> r" "r < bes_blockSize s" using B by (simp_all add: r_def)
  have rle: "r \<le> total" unfolding r_def using t0 B by (simp add: zmod_le_nonneg_dividend)
  have a0: "0 \<le> a" "a \<le> total" using rle r0 by (simp_all add: a_def)
  have tl: "total \<le> int (length (bes_buffer s))"
    using fit by (simp add: total_def TWN_ARRAY_SIZE_def)
  have F': "F (bes_crypto s) (take (nat a) (bes_buffer s)) = (out, k')"
    using F by (simp add: a_def r_def total_def)
  have lout: "int (length out) = a"
    using length_preservingD [OF lp F'] a0 tl by simp
  have rem: "c_rem total (bes_blockSize s) = Inr r"
    using c_rem_pos [OF t0 B] by (simp add: r_def)
  have ci: "Cipher F (bes_crypto s) (bes_buffer s) (bes_encrypedBuffer s) 0 a
      = Inr (int (length out), take (nat 0) (bes_encrypedBuffer s) @ out
               @ drop (nat 0 + length out) (bes_encrypedBuffer s), k')"
    using F' a0 tl lout len by (intro Cipher_eq) simp_all
  have rd: "memread (bes_buffer s) a r = Inr (take (nat r) (drop (nat a) (bes_buffer s)))"
    using a0 r0 tl by (intro memread_ok) (simp_all add: a_def)
  have ltail: "length (take (nat r) (drop (nat a) (bes_buffer s))) = nat r"
    using a0 r0 tl by (simp add: a_def)
  have wr: "memwrite (bes_buffer s) 0 (take (nat r) (drop (nat a) (bes_buffer s)))
      = Inr (take (nat 0) (bes_buffer s) @ take (nat r) (drop (nat a) (bes_buffer s))
             @ drop (nat 0 + length (take (nat r) (drop (nat a) (bes_buffer s)))) (bes_buffer s))"
    using r0 rle tl by (intro memwrite_ok) (simp_all add: ltail)
  have rd2: "memread (out @ drop (length out) (bes_encrypedBuffer s)) 0 (int (length out))
      = Inr out"
    by (simp add: memread_def)
  have ar: "total - a = r" by (simp add: a_def)
  have mn: "min (length (bes_buffer s) - nat a) (nat r) = nat r"
    using a0 r0 tl ar by linarith
  show ?thesis
    using ge
    unfolding BlockEncryptionStream_AdvanceWrite_def BlockEncryptionStream_GetAvailableRead_def
      Let_def total_def [symmetric]
    by (simp add: rem a_def [symmetric] ar ci rd wr ltail rd2 C r_def [symmetric] mn)
qed

lemma chunk_independent_Nil: "chunk_independent B F \<Longrightarrow> F k [] = ([], k)"
  by (simp add: chunk_independent_def)

lemma chunk_independent_append:
  assumes "chunk_independent B F" "int (length xs) mod B = 0" "F k xs = (a, k1)" "F k1 ys = (b, k2)"
  shows "F k (xs @ ys) = (a @ b, k2)"
  using assms unfolding chunk_independent_def by (auto split: prod.splits)

lemma write_to_memory:
  assumes inv: "BlockEncryptionStream_inv s"
    and lp: "length_preserving F"
    and nil: "F (bes_crypto s) [] = ([], bes_crypto s)
            \<or> bes_blockSize s \<le> int (length (BlockEncryptionStream_pending s @ data))"
    and fit: "bes_writePos s + int (length data) \<le> 4096"
    and F: "F (bes_crypto s)
              (take (nat (int (length (BlockEncryptionStream_pending s @ data))
                     - int (length (BlockEncryptionStream_pending s @ data)) mod bes_blockSize s))
                 (BlockEncryptionStream_pending s @ data)) = (out, k')"
  shows "\<exists>s'. BlockEncryptionStream_write F Copy_to_memory data s = Inr (True, s')
            \<and> BlockEncryptionStream_inv s'
            \<and> bes_blockSize s' = bes_blockSize s
            \<and> bes_dest s' = bes_dest s @ out
            \<and> bes_crypto s' = k'
            \<and> BlockEncryptionStream_pending s' =
                 drop (nat (int (length (BlockEncryptionStream_pending s @ data))
                     - int (length (BlockEncryptionStream_pending s @ data)) mod bes_blockSize s))
                   (BlockEncryptionStream_pending s @ data)
            \<and> bes_writePos s' < bes_blockSize s"
proof -
  define B where "B = bes_blockSize s"
  define w where "w = bes_writePos s"
  define t where "t = BlockEncryptionStream_pending s @ data"
  from inv have B0: "0 < B" and lb: "length (bes_buffer s) = 4096"
    and le: "length (bes_encrypedBuffer s) = 4096" and w0: "0 \<le> w" and w1: "w \<le> 4096"
    by (auto simp: BlockEncryptionStream_inv_def TWN_ARRAY_SIZE_def B_def w_def)
  define total where "total = int (length data) + w"
  have lt: "int (length t) = total"
    using w0 w1 lb by (simp add: t_def BlockEncryptionStream_pending_def total_def w_def [symmetric])
  define b where "b = take (nat w) (bes_buffer s) @ data @ drop (nat w + length data) (bes_buffer s)"
  have mw: "memwrite (bes_buffer s) w data = Inr b"
    unfolding b_def using w0 fit lb by (intro memwrite_ok) (simp_all add: w_def)
  have lb': "length b = 4096"
    using w0 fit lb by (simp add: b_def w_def)
  have tb: "take (nat total) b = t"
    using w0 w1 lb by (simp add: b_def t_def BlockEncryptionStream_pending_def total_def
        w_def [symmetric] nat_add_distrib)
  have nw: "BlockEncryptionStream_NextWrite s = (True, (w, 4096 - w))"
    using w0 w1 lb
    by (simp add: BlockEncryptionStream_NextWrite_def BlockEncryptionStream_GetAvailableRead_def
        TWN_ARRAY_SIZE_def w_def [symmetric] Let_def)
  have unf: "BlockEncryptionStream_write F Copy_to_memory data s
      = BlockEncryptionStream_AdvanceWrite F Copy_to_memory (int (length data)) (s\<lparr>bes_buffer := b\<rparr>)"
    using fit by (simp add: BlockEncryptionStream_write_def nw [unfolded w_def] mw [unfolded w_def])
  define r where "r = total mod B"
  define a where "a = total - r"
  have F': "F (bes_crypto s) (take (nat a) t) = (out, k')"
    using F by (simp only: t_def [symmetric] lt a_def r_def B_def)
  have G: "\<exists>s'. BlockEncryptionStream_write F Copy_to_memory data s = Inr (True, s')
            \<and> BlockEncryptionStream_inv s'
            \<and> bes_blockSize s' = B
            \<and> bes_dest s' = bes_dest s @ out
            \<and> bes_crypto s' = k'
            \<and> BlockEncryptionStream_pending s' = drop (nat a) t
            \<and> bes_writePos s' < B"
  proof (cases "total < B")
    case True
    have "total mod B = total" using True w0 by (simp add: total_def)
    then have "a = 0" by (simp add: a_def r_def)
    from True nil have "F (bes_crypto s) [] = ([], bes_crypto s)"
      by (simp only: t_def [symmetric] lt B_def [symmetric]) simp
    with F' \<open>a = 0\<close> have o: "out = []" "k' = bes_crypto s" by simp_all
    have "BlockEncryptionStream_AdvanceWrite F Copy_to_memory (int (length data)) (s\<lparr>bes_buffer := b\<rparr>)
        = Inr (True, s\<lparr>bes_buffer := b, bes_writePos := w + int (length data)\<rparr>)"
      using True AdvanceWrite_buffered [of "int (length data)" "s\<lparr>bes_buffer := b\<rparr>" F Copy_to_memory]
      by (simp add: total_def B_def w_def)
    moreover have "BlockEncryptionStream_pending (s\<lparr>bes_buffer := b, bes_writePos := w + int (length data)\<rparr>) = t"
      using tb by (simp add: BlockEncryptionStream_pending_def total_def add.commute)
    moreover have "BlockEncryptionStream_inv (s\<lparr>bes_buffer := b, bes_writePos := w + int (length data)\<rparr>)"
      using inv lb' w0 fit
      by (simp add: BlockEncryptionStream_inv_def TWN_ARRAY_SIZE_def w_def)
    ultimately show ?thesis
      using o True \<open>a = 0\<close> unf
      by (simp add: B_def [symmetric] total_def add.commute)
  next
    case False
    have t0: "0 \<le> total" using w0 by (simp add: total_def)
    have r0: "0 \<le> r" "r < B" using B0 by (simp_all add: r_def)
    have rle: "r \<le> total" unfolding r_def using t0 B0 by (simp add: zmod_le_nonneg_dividend)
    have a0: "0 \<le> a" "a \<le> total" using rle r0 by (simp_all add: a_def)
    have tl: "total \<le> 4096" using fit by (simp add: total_def w_def)
    have ta: "take (nat a) b = take (nat a) t"
    proof -
      have "take (nat a) (take (nat total) b) = take (nat a) b"
        using a0 by (simp add: min_def)
      then show ?thesis by (simp add: tb)
    qed
    have aw: "BlockEncryptionStream_AdvanceWrite F Copy_to_memory (int (length data)) (s\<lparr>bes_buffer := b\<rparr>)
       = Inr (True, s\<lparr>bes_buffer := b, bes_dest := bes_dest s @ out, bes_crypto := k',
                    bes_buffer := take (nat r) (drop (nat a) b) @ drop (nat r) b,
                    bes_encrypedBuffer := out @ drop (length out) (bes_encrypedBuffer s),
                    bes_writePos := r\<rparr>)"
      using AdvanceWrite_transform [of "s\<lparr>bes_buffer := b\<rparr>" "int (length data)" F out k'
          Copy_to_memory True "bes_dest s @ out"] False B0 tl lb' le lp F' ta
      by (simp add: total_def [symmetric] w_def [symmetric] B_def [symmetric] r_def [symmetric]
          a_def [symmetric] TWN_ARRAY_SIZE_def Copy_to_memory_def)
    have lout: "int (length out) = a"
      using length_preservingD [OF lp F'] a0 lt by simp
    have pend: "take (nat r) (take (nat r) (drop (nat a) b) @ drop (nat r) b) = drop (nat a) t"
    proof -
      have "drop (nat a) t = drop (nat a) (take (nat total) b)" by (simp add: tb)
      also have "\<dots> = take (nat total - nat a) (drop (nat a) b)" by (simp add: drop_take)
      also have "nat total - nat a = nat r" using a0 r0 by (simp add: a_def)
      finally have e: "drop (nat a) t = take (nat r) (drop (nat a) b)" .
      have "length (take (nat r) (drop (nat a) b)) = nat r"
        using a0 r0 tl lb' by (simp add: a_def)
      then show ?thesis by (simp add: e)
    qed
    have inv': "BlockEncryptionStream_inv (s\<lparr>bes_buffer := b, bes_dest := bes_dest s @ out,
                    bes_crypto := k',
                    bes_buffer := take (nat r) (drop (nat a) b) @ drop (nat r) b,
                    bes_encrypedBuffer := out @ drop (length out) (bes_encrypedBuffer s),
                    bes_writePos := r\<rparr>)"
      using inv r0 rle tl lb' le lout a0
      by (simp add: BlockEncryptionStream_inv_def TWN_ARRAY_SIZE_def a_def)
    show ?thesis
      using unf aw inv' pend r0
      by (simp add: BlockEncryptionStream_pending_def B_def [symmetric])
  qed
  show ?thesis
    using G unfolding a_def r_def lt [symmetric] t_def B_def .
qed

lemma aligned_split:
  fixes B :: int
  assumes "0 < B" "int (length X) mod B = 0"
  shows "int (length (X @ Y)) - int (length (X @ Y)) mod B
           = int (length X) + (int (length Y) - int (length Y) mod B)"
    and "take (nat (int (length (X @ Y)) - int (length (X @ Y)) mod B)) (X @ Y)
           = X @ take (nat (int (length Y) - int (length Y) mod B)) Y"
    and "drop (nat (int (length (X @ Y)) - int (length (X @ Y)) mod B)) (X @ Y)
           = drop (nat (int (length Y) - int (length Y) mod B)) Y"
proof -
  have m: "(int (length X) + int (length Y)) mod B = int (length Y) mod B"
    using assms(2) by (metis add_cancel_left_left mod_add_left_eq)
  show 1: "int (length (X @ Y)) - int (length (X @ Y)) mod B
           = int (length X) + (int (length Y) - int (length Y) mod B)"
    using m by simp
  have r: "0 \<le> int (length Y) mod B" "int (length Y) mod B \<le> int (length Y)"
    using assms(1) by (simp_all add: zmod_le_nonneg_dividend)
  then have n: "nat (int (length X) + (int (length Y) - int (length Y) mod B))
      = length X + nat (int (length Y) - int (length Y) mod B)"
    by linarith
  show "take (nat (int (length (X @ Y)) - int (length (X @ Y)) mod B)) (X @ Y)
           = X @ take (nat (int (length Y) - int (length Y) mod B)) Y"
    unfolding 1 n by simp
  show "drop (nat (int (length (X @ Y)) - int (length (X @ Y)) mod B)) (X @ Y)
           = drop (nat (int (length Y) - int (length Y) mod B)) Y"
    unfolding 1 n by simp
qed

lemma aligned_take_length:
  fixes B :: int
  assumes "0 < B"
  shows "int (length (take (nat (int (length t) - int (length t) mod B)) t)) mod B = 0"
proof -
  have r: "0 \<le> int (length t) mod B" "int (length t) mod B \<le> int (length t)"
    using assms by (simp_all add: zmod_le_nonneg_dividend)
  then have le: "nat (int (length t) - int (length t) mod B) \<le> length t" by linarith
  have "length (take (nat (int (length t) - int (length t) mod B)) t)
      = nat (int (length t) - int (length t) mod B)"
    using le by simp
  then have "int (length (take (nat (int (length t) - int (length t) mod B)) t))
      = int (length t) - int (length t) mod B" using r by simp
  then show ?thesis by (simp add: minus_mod_self2 mod_diff_left_eq)
qed

lemma length_pending:
  assumes "BlockEncryptionStream_inv s"
  shows "int (length (BlockEncryptionStream_pending s)) = bes_writePos s"
proof -
  from assms have "0 \<le> bes_writePos s" "bes_writePos s \<le> 4096" "length (bes_buffer s) = 4096"
    by (auto simp: BlockEncryptionStream_inv_def TWN_ARRAY_SIZE_def)
  then have "nat (bes_writePos s) \<le> length (bes_buffer s)" by linarith
  then have "length (take (nat (bes_writePos s)) (bes_buffer s)) = nat (bes_writePos s)"
    by simp
  then show ?thesis
    using \<open>0 \<le> bes_writePos s\<close> by (simp add: BlockEncryptionStream_pending_def)
qed

lemma write_chunks_to_memory:
  assumes "BlockEncryptionStream_inv s"
    and "bes_writePos s < bes_blockSize s"
    and "\<forall>c \<in> set chunks. int (length c) + bes_blockSize s \<le> 4096"
    and "length_preserving F" and "chunk_independent (bes_blockSize s) F"
    and "F (bes_crypto s)
           (take (nat (int (length (BlockEncryptionStream_pending s @ concat chunks))
                   - int (length (BlockEncryptionStream_pending s @ concat chunks))
                       mod bes_blockSize s))
              (BlockEncryptionStream_pending s @ concat chunks)) = (out, k')"
  shows "\<exists>s'. BlockEncryptionStream_write_chunks F Copy_to_memory chunks s = Inr s'
            \<and> BlockEncryptionStream_inv s'
            \<and> bes_blockSize s' = bes_blockSize s
            \<and> bes_dest s' = bes_dest s @ out
            \<and> bes_crypto s' = k'
            \<and> BlockEncryptionStream_pending s' =
                 drop (nat (int (length (BlockEncryptionStream_pending s @ concat chunks))
                   - int (length (BlockEncryptionStream_pending s @ concat chunks))
                       mod bes_blockSize s))
                   (BlockEncryptionStream_pending s @ concat chunks)
            \<and> bes_writePos s' < bes_blockSize s"
  using assms
proof (induction chunks arbitrary: s out k')
  case Nil
  from Nil.prems(1) have B: "0 < bes_blockSize s" "0 \<le> bes_writePos s"
    by (auto simp: BlockEncryptionStream_inv_def)
  have l: "int (length (BlockEncryptionStream_pending s)) = bes_writePos s"
    by (rule length_pending [OF Nil.prems(1)])
  have m: "bes_writePos s mod bes_blockSize s = bes_writePos s"
    using B Nil.prems(2) by simp
  from Nil.prems(6) have "F (bes_crypto s) [] = (out, k')"
    by (simp add: l m)
  with chunk_independent_Nil [OF Nil.prems(5)] have "out = []" "k' = bes_crypto s" by simp_all
  then show ?case using Nil.prems(1,2) by (simp add: l m)
next
  case (Cons c cs)
  define B where "B = bes_blockSize s"
  define t where "t = BlockEncryptionStream_pending s @ c"
  define a1 where "a1 = nat (int (length t) - int (length t) mod B)"
  from Cons.prems(1) have B0: "0 < B" and w0: "0 \<le> bes_writePos s"
    by (auto simp: BlockEncryptionStream_inv_def B_def)
  obtain o1 k1 where F1: "F (bes_crypto s) (take a1 t) = (o1, k1)"
    by (cases "F (bes_crypto s) (take a1 t)")
  have fit: "bes_writePos s + int (length c) \<le> 4096"
    using Cons.prems(2,3) by (simp add: B_def)
  from write_to_memory [OF Cons.prems(1,4) disjI1 [OF chunk_independent_Nil [OF Cons.prems(5)]] fit,
      where out = o1 and k' = k1] F1
  obtain s1 where w: "BlockEncryptionStream_write F Copy_to_memory c s = Inr (True, s1)"
    and inv1: "BlockEncryptionStream_inv s1" and B1: "bes_blockSize s1 = B"
    and d1: "bes_dest s1 = bes_dest s @ o1" and c1: "bes_crypto s1 = k1"
    and p1: "BlockEncryptionStream_pending s1 = drop a1 t"
    and w1: "bes_writePos s1 < B"
    by (auto simp: t_def a1_def B_def)
  define T1 where "T1 = drop a1 t @ concat cs"
  define A1 where "A1 = nat (int (length T1) - int (length T1) mod B)"
  obtain o2 k2 where F2: "F k1 (take A1 T1) = (o2, k2)" by (cases "F k1 (take A1 T1)")
  have al: "int (length (take a1 t)) mod B = 0"
    unfolding a1_def by (rule aligned_take_length [OF B0])
  have T: "BlockEncryptionStream_pending s @ concat (c # cs) = take a1 t @ T1"
  proof -
    have "take a1 t @ T1 = (take a1 t @ drop a1 t) @ concat cs"
      by (simp only: T1_def append_assoc)
    also have "\<dots> = t @ concat cs" by (simp only: append_take_drop_id)
    finally show ?thesis by (simp add: t_def)
  qed
  note sp = aligned_split [OF B0 al, of T1]
  have tk: "take (nat (int (length (take a1 t @ T1)) - int (length (take a1 t @ T1)) mod B))
              (take a1 t @ T1) = take a1 t @ take A1 T1"
    using sp(2) by (simp only: A1_def)
  have dr: "drop (nat (int (length (take a1 t @ T1)) - int (length (take a1 t @ T1)) mod B))
              (take a1 t @ T1) = drop A1 T1"
    using sp(3) by (simp only: A1_def)
  have whole: "F (bes_crypto s) (take a1 t @ take A1 T1) = (o1 @ o2, k2)"
    using chunk_independent_append [OF Cons.prems(5) [folded B_def] al F1 F2] .
  from Cons.prems(6) have ok: "out = o1 @ o2" "k' = k2"
    unfolding T B_def [symmetric] tk whole by simp_all
  have "\<exists>s'. BlockEncryptionStream_write_chunks F Copy_to_memory cs s1 = Inr s'
            \<and> BlockEncryptionStream_inv s'
            \<and> bes_blockSize s' = bes_blockSize s1
            \<and> bes_dest s' = bes_dest s1 @ o2
            \<and> bes_crypto s' = k2
            \<and> BlockEncryptionStream_pending s' =
                 drop (nat (int (length (BlockEncryptionStream_pending s1 @ concat cs))
                   - int (length (BlockEncryptionStream_pending s1 @ concat cs))
                       mod bes_blockSize s1))
                   (BlockEncryptionStream_pending s1 @ concat cs)
            \<and> bes_writePos s' < bes_blockSize s1"
  proof (rule Cons.IH [OF inv1])
    show "bes_writePos s1 < bes_blockSize s1" using w1 B1 by simp
    show "\<forall>c\<in>set cs. int (length c) + bes_blockSize s1 \<le> 4096"
      using Cons.prems(3) B1 by (simp add: B_def)
    show "length_preserving F" by fact
    show "chunk_independent (bes_blockSize s1) F" using Cons.prems(5) B1 by (simp add: B_def)
    show "F (bes_crypto s1)
       (take (nat (int (length (BlockEncryptionStream_pending s1 @ concat cs)) -
                   int (length (BlockEncryptionStream_pending s1 @ concat cs)) mod
                   bes_blockSize s1))
         (BlockEncryptionStream_pending s1 @ concat cs)) = (o2, k2)"
      using F2 by (simp only: p1 c1 B1 T1_def [symmetric] A1_def [symmetric])
  qed
  then obtain s' where r: "BlockEncryptionStream_write_chunks F Copy_to_memory cs s1 = Inr s'"
    and i': "BlockEncryptionStream_inv s'" and B': "bes_blockSize s' = B"
    and d': "bes_dest s' = bes_dest s1 @ o2" and c': "bes_crypto s' = k2"
    and p': "BlockEncryptionStream_pending s' = drop A1 T1" and w': "bes_writePos s' < B"
    by (auto simp only: p1 c1 B1 T1_def [symmetric] A1_def [symmetric])
  have run: "BlockEncryptionStream_write_chunks F Copy_to_memory (c # cs) s = Inr s'"
    using w r by simp
  show ?case
    unfolding T B_def [symmetric] dr
    using run i' B' d' d1 c' p' w' ok by simp
qed

lemma length_padding_bytes: "1 \<le> p \<Longrightarrow> int (length (padding_bytes p)) = p"
  by (simp add: padding_bytes_def)

lemma take_prefix: "length X = n \<Longrightarrow> take n (X @ Z) = X"
  by simp

lemma Flush_to_memory:
  assumes inv: "BlockEncryptionStream_inv s"
    and w: "bes_writePos s < bes_blockSize s"
    and B: "bes_blockSize s < 4096"
    and lp: "length_preserving F"
    and F: "F (bes_crypto s) (BlockEncryptionStream_pending s
              @ padding_bytes (bes_blockSize s - bes_writePos s)) = (out, k')"
  shows "\<exists>s'. BlockEncryptionStream_Flush dbg F Copy_to_memory s = Inr s'
            \<and> BlockEncryptionStream_inv s'
            \<and> bes_blockSize s' = bes_blockSize s
            \<and> bes_dest s' = bes_dest s @ out
            \<and> bes_crypto s' = k'
            \<and> bes_writePos s' = 0"
proof -
  define B where "B = bes_blockSize s"
  define w where "w = bes_writePos s"
  from inv have B0: "0 < B" and lb: "length (bes_buffer s) = 4096"
    and le: "length (bes_encrypedBuffer s) = 4096" and w0: "0 \<le> w"
    by (auto simp: BlockEncryptionStream_inv_def B_def w_def)
  have wB: "w < B" using w by (simp add: B_def w_def)
  have m: "w mod B = w" using w0 wB by simp
  define b1 where "b1 = take (nat w) (bes_buffer s) @ padding_bytes (B - w)
                  @ drop (nat B) (bes_buffer s)"
  have pad: "BlockEncryptionStream_Pad B (bes_buffer s) (TWN_ARRAY_SIZE (bes_buffer s)) w
      = Inr (B - w, b1)"
    using Pad_eq [OF B0 w0, of "TWN_ARRAY_SIZE (bes_buffer s)" "bes_buffer s"] B lb
    by (simp add: m b1_def padding_bytes_def TWN_ARRAY_SIZE_def B_def [symmetric])
  have lx: "length (take (nat w) (bes_buffer s)) = nat w"
    using w0 wB B lb by (simp add: B_def [symmetric])
  have ly: "length (padding_bytes (B - w)) = nat (B - w)"
    using length_padding_bytes [of "B - w"] wB by linarith
  have lxy: "length (take (nat w) (bes_buffer s)) + length (padding_bytes (B - w)) = nat B"
    unfolding lx ly using w0 wB by linarith
  have lb1: "length b1 = 4096"
    using lxy B B0 lb unfolding b1_def B_def [symmetric] by simp
  have tk: "take (nat B) b1 = BlockEncryptionStream_pending s @ padding_bytes (B - w)"
  proof -
    have "take (nat B) ((take (nat w) (bes_buffer s) @ padding_bytes (B - w))
            @ drop (nat B) (bes_buffer s)) = take (nat w) (bes_buffer s) @ padding_bytes (B - w)"
      by (rule take_prefix) (simp only: length_append lxy)
    then show ?thesis
      by (simp add: b1_def BlockEncryptionStream_pending_def w_def [symmetric])
  qed
  have rq: "c_rem B B = Inr 0"
    using c_rem_pos [of B B] B0 by simp
  have F': "F (bes_crypto (s\<lparr>bes_buffer := b1\<rparr>))
      (take (nat (B - w + bes_writePos (s\<lparr>bes_buffer := b1\<rparr>)
            - (B - w + bes_writePos (s\<lparr>bes_buffer := b1\<rparr>)) mod bes_blockSize (s\<lparr>bes_buffer := b1\<rparr>)))
         (bes_buffer (s\<lparr>bes_buffer := b1\<rparr>))) = (out, k')"
    using F tk by (simp add: B_def [symmetric] w_def [symmetric])
  have aw: "BlockEncryptionStream_AdvanceWrite F Copy_to_memory (B - w) (s\<lparr>bes_buffer := b1\<rparr>)
     = Inr (True, s\<lparr>bes_buffer := b1, bes_dest := bes_dest s @ out, bes_crypto := k',
                    bes_buffer := take (nat 0) (drop (nat B) b1) @ drop (nat 0) b1,
                    bes_encrypedBuffer := out @ drop (length out) (bes_encrypedBuffer s),
                    bes_writePos := 0\<rparr>)"
    using AdvanceWrite_transform [of "s\<lparr>bes_buffer := b1\<rparr>" "B - w" F out k' Copy_to_memory
        True "bes_dest s @ out", OF _ _ _ _ lp F'] B0 B lb1 le
    by (simp add: B_def [symmetric] w_def [symmetric] TWN_ARRAY_SIZE_def Copy_to_memory_def)
  have lout: "int (length out) = B"
    using length_preservingD [OF lp F] length_pending [OF inv] length_padding_bytes [of "B - w"] wB
    by (simp add: B_def [symmetric] w_def [symmetric])
  have run: "BlockEncryptionStream_Flush dbg F Copy_to_memory s
     = Inr (s\<lparr>bes_buffer := b1, bes_dest := bes_dest s @ out, bes_crypto := k',
                    bes_buffer := take (nat 0) (drop (nat B) b1) @ drop (nat 0) b1,
                    bes_encrypedBuffer := out @ drop (length out) (bes_encrypedBuffer s),
                    bes_writePos := 0\<rparr>)"
    unfolding BlockEncryptionStream_Flush_def BlockEncryptionStream_GetAvailableRead_def
    by (simp add: B_def [symmetric] w_def [symmetric] pad rq TWN_REQUIRE_def aw)
  show ?thesis
    unfolding run
    using inv lb1 le lout B B0
    by (simp add: BlockEncryptionStream_inv_def TWN_ARRAY_SIZE_def B_def [symmetric])
qed

lemma write_all_to_memory:
  assumes inv: "BlockEncryptionStream_inv s"
    and w: "bes_writePos s = 0"
    and B: "bes_blockSize s < 4096"
    and fit: "\<forall>c \<in> set chunks. int (length c) + bes_blockSize s \<le> 4096"
    and lp: "length_preserving F" and ci: "chunk_independent (bes_blockSize s) F"
  shows "\<exists>s'. BlockEncryptionStream_write_all dbg F Copy_to_memory chunks s = Inr s'
            \<and> bes_dest s' = bes_dest s
                 @ fst (F (bes_crypto s) (concat chunks
                     @ padding_bytes (bes_blockSize s
                          - int (length (concat chunks)) mod bes_blockSize s)))"
proof -
  define B where "B = bes_blockSize s"
  define P where "P = concat chunks"
  define A where "A = nat (int (length P) - int (length P) mod B)"
  from inv have B0: "0 < B" by (auto simp: BlockEncryptionStream_inv_def B_def)
  have pe: "BlockEncryptionStream_pending s = []"
    using w by (simp add: BlockEncryptionStream_pending_def)
  obtain o1 k1 where F1: "F (bes_crypto s) (take A P) = (o1, k1)"
    by (cases "F (bes_crypto s) (take A P)")
  have "\<exists>s'. BlockEncryptionStream_write_chunks F Copy_to_memory chunks s = Inr s'
            \<and> BlockEncryptionStream_inv s'
            \<and> bes_blockSize s' = bes_blockSize s
            \<and> bes_dest s' = bes_dest s @ o1
            \<and> bes_crypto s' = k1
            \<and> BlockEncryptionStream_pending s' =
                 drop (nat (int (length (BlockEncryptionStream_pending s @ concat chunks))
                   - int (length (BlockEncryptionStream_pending s @ concat chunks))
                       mod bes_blockSize s))
                   (BlockEncryptionStream_pending s @ concat chunks)
            \<and> bes_writePos s' < bes_blockSize s"
  proof (rule write_chunks_to_memory [OF inv _ fit lp ci])
    show "bes_writePos s < bes_blockSize s" using w B0 by (simp add: B_def)
    show "F (bes_crypto s)
       (take (nat (int (length (BlockEncryptionStream_pending s @ concat chunks)) -
                   int (length (BlockEncryptionStream_pending s @ concat chunks)) mod
                   bes_blockSize s))
         (BlockEncryptionStream_pending s @ concat chunks)) = (o1, k1)"
      using F1 by (simp add: pe P_def A_def B_def)
  qed
  then obtain s1 where r1: "BlockEncryptionStream_write_chunks F Copy_to_memory chunks s = Inr s1"
    and inv1: "BlockEncryptionStream_inv s1" and B1: "bes_blockSize s1 = B"
    and d1: "bes_dest s1 = bes_dest s @ o1" and c1: "bes_crypto s1 = k1"
    and p1: "BlockEncryptionStream_pending s1 = drop A P" and w1: "bes_writePos s1 < B"
    by (auto simp: pe P_def A_def B_def)
  have r: "0 \<le> int (length P) mod B" "int (length P) mod B \<le> int (length P)"
    using B0 by (simp_all add: zmod_le_nonneg_dividend)
  have wp: "bes_writePos s1 = int (length P) mod B"
  proof -
    have "bes_writePos s1 = int (length (drop A P))"
      using length_pending [OF inv1] p1 by simp
    also have "\<dots> = int (length P) - int A" using r by (simp add: A_def)
    also have "\<dots> = int (length P) mod B" using r by (simp add: A_def)
    finally show ?thesis .
  qed
  obtain o2 k2 where F2: "F k1 (drop A P @ padding_bytes (B - int (length P) mod B)) = (o2, k2)"
    by (cases "F k1 (drop A P @ padding_bytes (B - int (length P) mod B))")
  have "\<exists>s'. BlockEncryptionStream_Flush dbg F Copy_to_memory s1 = Inr s'
            \<and> BlockEncryptionStream_inv s'
            \<and> bes_blockSize s' = bes_blockSize s1
            \<and> bes_dest s' = bes_dest s1 @ o2
            \<and> bes_crypto s' = k2
            \<and> bes_writePos s' = 0"
  proof (rule Flush_to_memory [OF inv1 _ _ lp])
    show "bes_writePos s1 < bes_blockSize s1" using w1 B1 by simp
    show "bes_blockSize s1 < 4096" using B B1 by (simp add: B_def)
    show "F (bes_crypto s1) (BlockEncryptionStream_pending s1
              @ padding_bytes (bes_blockSize s1 - bes_writePos s1)) = (o2, k2)"
      using F2 by (simp add: c1 p1 B1 wp)
  qed
  then obtain s2 where r2: "BlockEncryptionStream_Flush dbg F Copy_to_memory s1 = Inr s2"
    and d2: "bes_dest s2 = bes_dest s1 @ o2" by auto
  have al: "int (length (take A P)) mod B = 0"
    unfolding A_def by (rule aligned_take_length [OF B0])
  have "F (bes_crypto s) (take A P @ (drop A P @ padding_bytes (B - int (length P) mod B)))
      = (o1 @ o2, k2)"
    by (rule chunk_independent_append [OF ci [folded B_def] al F1 F2])
  moreover have "take A P @ (drop A P @ padding_bytes (B - int (length P) mod B))
      = P @ padding_bytes (B - int (length P) mod B)"
    by (simp only: append_assoc [symmetric] append_take_drop_id)
  ultimately have "fst (F (bes_crypto s) (P @ padding_bytes (B - int (length P) mod B))) = o1 @ o2"
    by simp
  then show ?thesis
    using r1 r2 d1 d2
    by (simp add: BlockEncryptionStream_write_all_def P_def B_def)
qed

section \<open>AdvanceWrite and the concrete scenario\<close>

text \<open>
  Claim C5. \<^verbatim>\<open>AdvanceWrite(n)\<close> of the block encryptor, with \<open>total\<close> the sum of \<open>n\<close> and the
  bytes accumulated. Below the block size the write cursor moves by \<open>n\<close>, nothing is
  transformed or forwarded and the call succeeds. From the block size on (the call
  within the window, the transform length-preserving) exactly
  \<open>total - total mod blockSize\<close> bytes of the accumulation buffer are transformed into
  the output buffer and handed to the sink, whose answer is returned; the rest moves to
  the front of the buffer and the write cursor is the remainder. With block size 16 and
  20 bytes written, 16 bytes are forwarded and 4 retained; \<^verbatim>\<open>Flush\<close> pads them with 11
  zero bytes and a byte 12 and forwards 16 more bytes: 32 bytes in all.
\<close>

theorem AdvanceWrite_blockwise:
  "(bytes + bes_writePos s < bes_blockSize s \<longrightarrow>
      BlockEncryptionStream_AdvanceWrite F Copy bytes s
        = Inr (True, s\<lparr>bes_writePos := bes_writePos s + bytes\<rparr>))
 \<and> (BlockEncryptionStream_inv s \<and> length_preserving F
      \<and> bes_blockSize s \<le> bytes + bes_writePos s \<and> bytes + bes_writePos s \<le> 4096 \<longrightarrow>
      (\<exists>out k' ok d'.
         F (bes_crypto s)
           (take (nat (bytes + bes_writePos s - (bytes + bes_writePos s) mod bes_blockSize s))
              (bes_buffer s)) = (out, k')
       \<and> int (length out) = bytes + bes_writePos s - (bytes + bes_writePos s) mod bes_blockSize s
       \<and> Copy out (bes_dest s) = (ok, d')
       \<and> BlockEncryptionStream_AdvanceWrite F Copy bytes s
           = Inr (ok, s\<lparr>bes_dest := d', bes_crypto := k',
                    bes_buffer :=
                      take (nat ((bytes + bes_writePos s) mod bes_blockSize s))
                        (drop (nat (bytes + bes_writePos s
                                  - (bytes + bes_writePos s) mod bes_blockSize s)) (bes_buffer s))
                      @ drop (nat ((bytes + bes_writePos s) mod bes_blockSize s)) (bes_buffer s),
                    bes_encrypedBuffer := out @ drop (length out) (bes_encrypedBuffer s),
                    bes_writePos := (bytes + bes_writePos s) mod bes_blockSize s\<rparr>)))
 \<and> (BlockEncryptionStream_inv s \<and> length_preserving F
      \<and> bes_blockSize s = 16 \<and> bes_writePos s = 0 \<and> length p = 20 \<longrightarrow>
      (\<exists>s1 s2 out2.
         BlockEncryptionStream_write F Copy_to_memory p s = Inr (True, s1)
       \<and> bes_dest s1 = bes_dest s @ fst (F (bes_crypto s) (take 16 p))
       \<and> length (fst (F (bes_crypto s) (take 16 p))) = 16
       \<and> bes_writePos s1 = 4
       \<and> BlockEncryptionStream_pending s1 = drop 16 p
       \<and> BlockEncryptionStream_Flush dbg F Copy_to_memory s1 = Inr s2
       \<and> out2 = fst (F (bes_crypto s1) (drop 16 p @ replicate 11 0 @ [12]))
       \<and> length out2 = 16
       \<and> bes_dest s2 = bes_dest s1 @ out2
       \<and> length (bes_dest s2) = length (bes_dest s) + 32))"
proof (intro conjI impI)
  assume "bytes + bes_writePos s < bes_blockSize s"
  then show "BlockEncryptionStream_AdvanceWrite F Copy bytes s
        = Inr (True, s\<lparr>bes_writePos := bes_writePos s + bytes\<rparr>)"
    by (rule AdvanceWrite_buffered)
next
  let ?a = "bytes + bes_writePos s - (bytes + bes_writePos s) mod bes_blockSize s"
  assume h: "BlockEncryptionStream_inv s \<and> length_preserving F
      \<and> bes_blockSize s \<le> bytes + bes_writePos s \<and> bytes + bes_writePos s \<le> 4096"
  then have B0: "0 < bes_blockSize s" and lb: "length (bes_buffer s) = 4096"
    and le: "length (bes_encrypedBuffer s) = 4096"
    by (auto simp: BlockEncryptionStream_inv_def)
  obtain out k' where F: "F (bes_crypto s) (take (nat ?a) (bes_buffer s)) = (out, k')"
    by (cases "F (bes_crypto s) (take (nat ?a) (bes_buffer s))")
  obtain ok d' where C: "Copy out (bes_dest s) = (ok, d')" by (cases "Copy out (bes_dest s)")
  have t0: "0 \<le> bytes + bes_writePos s" using B0 h by simp
  have r: "0 \<le> (bytes + bes_writePos s) mod bes_blockSize s"
    "(bytes + bes_writePos s) mod bes_blockSize s \<le> bytes + bes_writePos s"
    using B0 t0 by (simp_all add: zmod_le_nonneg_dividend)
  from h have lp: "length_preserving F" by simp
  have "int (length (take (nat ?a) (bes_buffer s))) = ?a"
    using r h lb by (intro length_take_nat) simp_all
  then have lout: "int (length out) = ?a"
    using length_preservingD [OF lp F] by simp
  from AdvanceWrite_transform [of s bytes F out k' Copy ok d'] B0 lp h lb le lout F C
  show "\<exists>out k' ok d'.
         F (bes_crypto s) (take (nat ?a) (bes_buffer s)) = (out, k')
       \<and> int (length out) = ?a
       \<and> Copy out (bes_dest s) = (ok, d')
       \<and> BlockEncryptionStream_AdvanceWrite F Copy bytes s
           = Inr (ok, s\<lparr>bes_dest := d', bes_crypto := k',
                    bes_buffer :=
                      take (nat ((bytes + bes_writePos s) mod bes_blockSize s))
                        (drop (nat ?a) (bes_buffer s))
                      @ drop (nat ((bytes + bes_writePos s) mod bes_blockSize s)) (bes_buffer s),
                    bes_encrypedBuffer := out @ drop (length out) (bes_encrypedBuffer s),
                    bes_writePos := (bytes + bes_writePos s) mod bes_blockSize s\<rparr>)"
    by (simp add: TWN_ARRAY_SIZE_def)
next
  assume h: "BlockEncryptionStream_inv s \<and> length_preserving F
      \<and> bes_blockSize s = 16 \<and> bes_writePos s = 0 \<and> length p = 20"
  then have inv: "BlockEncryptionStream_inv s" and lp: "length_preserving F"
    and B: "bes_blockSize s = 16" and w: "bes_writePos s = 0" and lp20: "length p = 20"
    by simp_all
  have pe: "BlockEncryptionStream_pending s = []"
    using w by (simp add: BlockEncryptionStream_pending_def)
  obtain o1 k1 where F1: "F (bes_crypto s) (take 16 p) = (o1, k1)"
    by (cases "F (bes_crypto s) (take 16 p)")
  have "\<exists>s'. BlockEncryptionStream_write F Copy_to_memory p s = Inr (True, s')
            \<and> BlockEncryptionStream_inv s'
            \<and> bes_blockSize s' = bes_blockSize s
            \<and> bes_dest s' = bes_dest s @ o1
            \<and> bes_crypto s' = k1
            \<and> BlockEncryptionStream_pending s' =
                 drop (nat (int (length (BlockEncryptionStream_pending s @ p))
                     - int (length (BlockEncryptionStream_pending s @ p)) mod bes_blockSize s))
                   (BlockEncryptionStream_pending s @ p)
            \<and> bes_writePos s' < bes_blockSize s"
    by (rule write_to_memory [OF inv lp]) (simp_all add: pe B w lp20 F1)
  then obtain s1 where w1: "BlockEncryptionStream_write F Copy_to_memory p s = Inr (True, s1)"
    and inv1: "BlockEncryptionStream_inv s1" and B1: "bes_blockSize s1 = 16"
    and d1: "bes_dest s1 = bes_dest s @ o1" and c1: "bes_crypto s1 = k1"
    and p1: "BlockEncryptionStream_pending s1 = drop 16 p"
    by (auto simp: pe B lp20)
  have wp1: "bes_writePos s1 = 4"
    using length_pending [OF inv1] p1 lp20 by simp
  have lo1: "length o1 = 16" using length_preservingD [OF lp F1] lp20 by simp
  have pb: "padding_bytes 12 = replicate 11 0 @ [12]" by (simp add: padding_bytes_def)
  obtain o2 k2 where F2: "F k1 (drop 16 p @ replicate 11 0 @ [12]) = (o2, k2)"
    by (cases "F k1 (drop 16 p @ replicate 11 0 @ [12])")
  have "\<exists>s'. BlockEncryptionStream_Flush dbg F Copy_to_memory s1 = Inr s'
            \<and> BlockEncryptionStream_inv s'
            \<and> bes_blockSize s' = bes_blockSize s1
            \<and> bes_dest s' = bes_dest s1 @ o2
            \<and> bes_crypto s' = k2
            \<and> bes_writePos s' = 0"
    by (rule Flush_to_memory [OF inv1 _ _ lp]) (simp_all add: B1 wp1 p1 c1 pb F2)
  then obtain s2 where f2: "BlockEncryptionStream_Flush dbg F Copy_to_memory s1 = Inr s2"
    and d2: "bes_dest s2 = bes_dest s1 @ o2" by auto
  have lo2: "length o2 = 16" using length_preservingD [OF lp F2] lp20 by simp
  show "\<exists>s1 s2 out2.
         BlockEncryptionStream_write F Copy_to_memory p s = Inr (True, s1)
       \<and> bes_dest s1 = bes_dest s @ fst (F (bes_crypto s) (take 16 p))
       \<and> length (fst (F (bes_crypto s) (take 16 p))) = 16
       \<and> bes_writePos s1 = 4
       \<and> BlockEncryptionStream_pending s1 = drop 16 p
       \<and> BlockEncryptionStream_Flush dbg F Copy_to_memory s1 = Inr s2
       \<and> out2 = fst (F (bes_crypto s1) (drop 16 p @ replicate 11 0 @ [12]))
       \<and> length out2 = 16
       \<and> bes_dest s2 = bes_dest s1 @ out2
       \<and> length (bes_dest s2) = length (bes_dest s) + 32"
    using w1 d1 wp1 p1 f2 d2 lo1 lo2 F1 F2 c1 by simp
qed

lemma length_preserving_add_cipher: "length_preserving add_cipher"
  by (simp add: length_preserving_def add_cipher_def)

theorem AdvanceWrite_blockwise_witness:
  "BlockEncryptionStream_AdvanceWrite add_cipher Copy_to_memory 3
      \<lparr>bes_dest = [], bes_crypto = 1, bes_blockSize = 16, bes_buffer = replicate 4096 7,
       bes_encrypedBuffer = replicate 4096 0, bes_writePos = 0\<rparr>
    = Inr (True, \<lparr>bes_dest = [], bes_crypto = 1, bes_blockSize = 16,
                  bes_buffer = replicate 4096 7, bes_encrypedBuffer = replicate 4096 0,
                  bes_writePos = 3\<rparr>)
 \<and> (\<exists>out k' ok d'.
       add_cipher 1 (take (nat (20 - 20 mod 16)) (replicate 4096 7)) = (out, k')
     \<and> int (length out) = 16
     \<and> BlockEncryptionStream_AdvanceWrite add_cipher Copy_to_memory 20
          \<lparr>bes_dest = [], bes_crypto = 1, bes_blockSize = 16, bes_buffer = replicate 4096 7,
           bes_encrypedBuffer = replicate 4096 0, bes_writePos = 0\<rparr>
        = Inr (ok, \<lparr>bes_dest = d', bes_crypto = k', bes_blockSize = 16,
                  bes_buffer = replicate 4096 7,
                  bes_encrypedBuffer = out @ replicate 4080 0, bes_writePos = 4\<rparr>))
 \<and> (\<exists>s1 s2.
       BlockEncryptionStream_write add_cipher Copy_to_memory (replicate 20 7)
          \<lparr>bes_dest = [], bes_crypto = 1, bes_blockSize = 16, bes_buffer = replicate 4096 7,
           bes_encrypedBuffer = replicate 4096 0, bes_writePos = 0\<rparr> = Inr (True, s1)
     \<and> bes_dest s1 = replicate 16 8
     \<and> bes_writePos s1 = 4
     \<and> BlockEncryptionStream_Flush True add_cipher Copy_to_memory s1 = Inr s2
     \<and> length (bes_dest s2) = 32)"
proof -
  let ?s = "\<lparr>bes_dest = ([] :: byte list), bes_crypto = (1 :: byte), bes_blockSize = 16,
       bes_buffer = replicate 4096 7, bes_encrypedBuffer = replicate 4096 0, bes_writePos = 0\<rparr>"
  have inv: "BlockEncryptionStream_inv ?s"
    by (simp add: BlockEncryptionStream_inv_def TWN_ARRAY_SIZE_def)
  note lp = length_preserving_add_cipher
  note t1 = AdvanceWrite_blockwise [where s = ?s and bytes = 3 and F = add_cipher
      and Copy = Copy_to_memory, THEN conjunct1]
  note t2 = AdvanceWrite_blockwise [where s = ?s and bytes = 20 and F = add_cipher
      and Copy = Copy_to_memory, THEN conjunct2, THEN conjunct1]
  note t3 = AdvanceWrite_blockwise [where s = ?s and F = add_cipher and p = "replicate 20 7"
      and dbg = True, THEN conjunct2, THEN conjunct2]
  have 1: "BlockEncryptionStream_AdvanceWrite add_cipher Copy_to_memory 3 ?s
      = Inr (True, ?s\<lparr>bes_writePos := 3\<rparr>)"
    using t1 by simp
  from t2 inv lp obtain out k' ok d' where
    "add_cipher 1 (take (nat (20 - 20 mod 16)) (replicate 4096 7)) = (out, k')"
    "int (length out) = 16"
    "BlockEncryptionStream_AdvanceWrite add_cipher Copy_to_memory 20 ?s
        = Inr (ok, \<lparr>bes_dest = d', bes_crypto = k', bes_blockSize = 16,
                  bes_buffer = replicate 4096 7,
                  bes_encrypedBuffer = out @ replicate 4080 0, bes_writePos = 4\<rparr>)"
    by (auto simp: replicate_add [symmetric])
  then have 2: "\<exists>out k' ok d'.
       add_cipher 1 (take (nat (20 - 20 mod 16)) (replicate 4096 7)) = (out, k')
     \<and> int (length out) = 16
     \<and> BlockEncryptionStream_AdvanceWrite add_cipher Copy_to_memory 20 ?s
        = Inr (ok, \<lparr>bes_dest = d', bes_crypto = k', bes_blockSize = 16,
                  bes_buffer = replicate 4096 7,
                  bes_encrypedBuffer = out @ replicate 4080 0, bes_writePos = 4\<rparr>)"
    by blast
  from t3 inv lp obtain s1 s2 where
    "BlockEncryptionStream_write add_cipher Copy_to_memory (replicate 20 7) ?s = Inr (True, s1)"
    "bes_dest s1 = fst (add_cipher 1 (take 16 (replicate 20 7)))"
    "bes_writePos s1 = 4"
    "BlockEncryptionStream_Flush True add_cipher Copy_to_memory s1 = Inr s2"
    "length (bes_dest s2) = 32"
    by auto
  then have 3: "\<exists>s1 s2.
       BlockEncryptionStream_write add_cipher Copy_to_memory (replicate 20 7) ?s = Inr (True, s1)
     \<and> bes_dest s1 = replicate 16 8
     \<and> bes_writePos s1 = 4
     \<and> BlockEncryptionStream_Flush True add_cipher Copy_to_memory s1 = Inr s2
     \<and> length (bes_dest s2) = 32"
    by (auto simp: add_cipher_def)
  from 1 2 3 show ?thesis by simp
qed

section \<open>The block decryptor, pass by pass\<close>

lemma bytesToRead_facts:
  assumes "0 < B" "0 \<le> n"
  shows "0 \<le> bytesToRead B n" and "bytesToRead B n \<le> n" and "bytesToRead B n mod B = 0"
    and "n - bytesToRead B n < 2 * B"
    and "0 < bytesToRead B n \<Longrightarrow> B \<le> n - bytesToRead B n"
    and "0 < bytesToRead B n \<Longrightarrow> B \<le> bytesToRead B n"
    and "0 < bytesToRead B n \<Longrightarrow> n - bytesToRead B n = n mod B + B"
    and "n < 2 * B \<Longrightarrow> bytesToRead B n = 0"
proof -
  have r: "0 \<le> n mod B" "n mod B < B" "n mod B \<le> n"
    using assms by (simp_all add: zmod_le_nonneg_dividend)
  have d: "(n - n mod B) mod B = 0" by (simp add: minus_mod_self2 mod_diff_left_eq)
  then have dv: "B dvd n - n mod B" by presburger
  have e: "bytesToRead B n = n - n mod B - B \<and> 0 < n - n mod B - B
         \<or> bytesToRead B n = 0 \<and> n - n mod B - B \<le> 0"
    by (simp add: bytesToRead_def)
  show "0 \<le> bytesToRead B n" by (simp add: bytesToRead_def)
  show "bytesToRead B n \<le> n" using r assms e by arith
  show "bytesToRead B n mod B = 0" using d by (simp add: bytesToRead_def mod_diff_left_eq)
  show "0 < bytesToRead B n \<Longrightarrow> B \<le> n - bytesToRead B n"
    using r e by arith
  show "0 < bytesToRead B n \<Longrightarrow> n - bytesToRead B n = n mod B + B"
    using r e by arith
  obtain q where q: "n - n mod B = B * q" using dv by (auto simp: dvd_def)
  have q0: "0 \<le> q"
  proof (rule ccontr)
    assume "\<not> 0 \<le> q"
    then have "q \<le> -1" by simp
    then have "B * q \<le> B * (-1)" using assms(1) by (intro mult_left_mono) simp_all
    with q r assms show False by simp
  qed
  show "0 < bytesToRead B n \<Longrightarrow> B \<le> bytesToRead B n"
  proof -
    assume "0 < bytesToRead B n"
    then have p: "0 < B * q - B" "bytesToRead B n = B * q - B"
      using q e by arith+
    then have "B * 1 < B * q" by simp
    then have "1 < q" using assms(1) by (simp only: mult_less_cancel_left_pos)
    then have "2 \<le> q" by simp
    then have "B * 2 \<le> B * q" using assms(1) by (intro mult_left_mono) simp_all
    with p show ?thesis by simp
  qed
  show "n - bytesToRead B n < 2 * B"
  proof (cases "n - n mod B - B > 0")
    case True
    then show ?thesis using r e by arith
  next
    case False
    then have "B * q \<le> B * 1" using q by simp
    then have "q \<le> 1" using assms(1) by (simp only: mult_le_cancel_left_pos)
    then have "B * q \<le> B" using assms(1) mult_left_mono [of q 1 B] by simp
    then show ?thesis using False q r e by arith
  qed
  show "n < 2 * B \<Longrightarrow> bytesToRead B n = 0"
  proof -
    assume a: "n < 2 * B"
    have "\<not> 2 \<le> q"
    proof
      assume "2 \<le> q"
      then have "B * 2 \<le> B * q" using assms(1) by (intro mult_left_mono) simp_all
      with q r a show False by simp
    qed
    then have "q \<le> 1" by simp
    then have "B * q \<le> B" using assms(1) mult_left_mono [of q 1 B] by simp
    then show ?thesis using q e by arith
  qed
qed

lemma concat_AdvanceRead:
  assumes "ReadStream_NextRead src = Some buffer" "0 \<le> len" "len \<le> int (length buffer)"
  shows "take (nat len) buffer @ concat (ReadStream_AdvanceRead len src) = concat src"
proof (cases src)
  case Nil
  with assms(1) show ?thesis by (simp add: ReadStream_NextRead_def)
next
  case (Cons c cs)
  with assms(1) have c: "c = buffer" by (simp add: ReadStream_NextRead_def)
  show ?thesis using assms(2,3) Cons c
    by (simp add: ReadStream_AdvanceRead_def)
qed

lemma Decrypt_pass_unfold:
  assumes "min (BlockDecryptionStream_GetAvailableWrite s) (int (length buffer)) = len"
    and "memwrite (bds_encrypedBuffer s) (bds_writePos s) (take (nat len) buffer) = Inr e1"
    and "c_rem (bds_writePos s + len) (bds_blockSize s) = Inr r"
    and "bds_writePos s + len - r - bds_blockSize s = a"
  shows "BlockDecryptionStream_Decrypt_pass F buffer s =
     (if 0 < a
      then bindF (Cipher F (bds_crypto s) e1 (bds_buffer s) 0 a) (\<lambda>(written, b', k').
             bindF (memread e1 a (bds_writePos s + len - a)) (\<lambda>tail.
               bindF (memwrite e1 0 tail) (\<lambda>e2.
                 Inr (len, s\<lparr>bds_encrypedBuffer := e1, bds_writePos := bds_writePos s + len,
                              bds_source := ReadStream_AdvanceRead len (bds_source s),
                              bds_crypto := k', bds_buffer := b', bds_readEnd := written,
                              bds_encrypedBuffer := e2,
                              bds_writePos := bds_writePos s + len - a\<rparr>))))
      else Inr (len, s\<lparr>bds_encrypedBuffer := e1, bds_writePos := bds_writePos s + len,
                       bds_source := ReadStream_AdvanceRead len (bds_source s)\<rparr>))"
  unfolding BlockDecryptionStream_Decrypt_pass_def Let_def assms(1)
    BlockDecryptionStream_GetUsedWrite_def
  by (simp add: assms(2,3) assms(4) [symmetric])

lemma Decrypt_pass_step_gen:
  assumes inv: "BlockDecryptionStream_inv s"
    and z: "bds_readPos s = 0" "bds_readEnd s = 0"
    and lp: "length_preserving F"
    and g: "0 < BlockDecryptionStream_GetAvailableWrite s"
    and nx: "ReadStream_NextRead (bds_source s) = Some buffer"
    and nil: "bytesToRead (bds_blockSize s)
                (bds_writePos s + min (4096 - bds_writePos s) (int (length buffer))) = 0
              \<longrightarrow> (out, k') = ([], bds_crypto s)"
    and F: "0 < bytesToRead (bds_blockSize s)
                (bds_writePos s + min (4096 - bds_writePos s) (int (length buffer)))
              \<longrightarrow> F (bds_crypto s)
              (take (nat (bytesToRead (bds_blockSize s)
                     (bds_writePos s + min (4096 - bds_writePos s) (int (length buffer)))))
                 (BlockDecryptionStream_pending s)) = (out, k')"
  shows "\<exists>s'. BlockDecryptionStream_Decrypt_pass F buffer s
                 = Inr (min (4096 - bds_writePos s) (int (length buffer)), s')
            \<and> BlockDecryptionStream_inv s'
            \<and> bds_blockSize s' = bds_blockSize s
            \<and> bds_readPos s' = 0
            \<and> bds_readEnd s' = bytesToRead (bds_blockSize s)
                     (bds_writePos s + min (4096 - bds_writePos s) (int (length buffer)))
            \<and> bds_writePos s' = bds_writePos s + min (4096 - bds_writePos s) (int (length buffer))
                  - bytesToRead (bds_blockSize s)
                     (bds_writePos s + min (4096 - bds_writePos s) (int (length buffer)))
            \<and> bds_crypto s' = k'
            \<and> BlockDecryptionStream_window s' = out
            \<and> int (length out) = bytesToRead (bds_blockSize s)
                     (bds_writePos s + min (4096 - bds_writePos s) (int (length buffer)))
            \<and> bds_source s' = ReadStream_AdvanceRead
                     (min (4096 - bds_writePos s) (int (length buffer))) (bds_source s)
            \<and> BlockDecryptionStream_pending s' =
                 drop (nat (bytesToRead (bds_blockSize s)
                     (bds_writePos s + min (4096 - bds_writePos s) (int (length buffer)))))
                   (BlockDecryptionStream_pending s)"
proof -
  define B where "B = bds_blockSize s"
  define w where "w = bds_writePos s"
  define len where "len = min (4096 - w) (int (length buffer))"
  define avail where "avail = w + len"
  define a where "a = bytesToRead B avail"
  define E where "E = bds_encrypedBuffer s"
  from inv have B0: "0 < B" and lb: "length (bds_buffer s) = 4096"
    and le: "length E = 4096" and w0: "0 \<le> w"
    by (auto simp: BlockDecryptionStream_inv_def B_def w_def E_def)
  from g have w1: "w < 4096"
    by (simp add: BlockDecryptionStream_GetAvailableWrite_def BlockDecryptionStream_GetUsedWrite_def
        TWN_ARRAY_SIZE_def w_def le [unfolded E_def])
  have len0: "0 \<le> len" "len \<le> int (length buffer)" "w + len \<le> 4096"
    using w1 by (simp_all add: len_def)
  have av: "0 \<le> avail" "avail \<le> 4096" using w0 len0 by (simp_all add: avail_def)
  note bf = bytesToRead_facts [OF B0 av(1), folded a_def]
  define src1 where "src1 = ReadStream_AdvanceRead len (bds_source s)"
  define e1 where "e1 = take (nat w) E @ take (nat len) buffer @ drop (nat w + length (take (nat len) buffer)) E"
  have ltk: "length (take (nat len) buffer) = nat len"
    using len0 by (intro length_take_nat) simp_all
  have mw: "memwrite E w (take (nat len) buffer) = Inr e1"
    unfolding e1_def using w0 len0 le ltk by (intro memwrite_ok) simp_all
  have lwE: "length (take (nat w) E) = nat w"
    using w0 w1 le by (intro length_take_nat) simp_all
  have le1: "length e1 = 4096"
    using lwE ltk w0 len0 le by (simp add: e1_def)
  have tke1: "take (nat avail) e1 = take (nat w) E @ take (nat len) buffer"
  proof -
    have "length (take (nat w) E @ take (nat len) buffer) = nat avail"
      using lwE ltk w0 len0 by (simp add: avail_def nat_add_distrib)
    then have "take (nat avail) ((take (nat w) E @ take (nat len) buffer)
          @ drop (nat w + length (take (nat len) buffer)) E)
        = take (nat w) E @ take (nat len) buffer"
      by (rule take_prefix)
    then show ?thesis by (simp add: e1_def)
  qed
  have P: "BlockDecryptionStream_pending s = take (nat avail) e1 @ concat src1"
    using concat_AdvanceRead [OF nx len0(1,2)]
    by (simp add: BlockDecryptionStream_pending_def tke1 src1_def w_def E_def)
  have lav: "length (take (nat avail) e1) = nat avail"
    using av le1 by (intro length_take_nat) simp_all
  have ta: "take (nat a) e1 = take (nat a) (BlockDecryptionStream_pending s)"
  proof -
    have "nat a \<le> length (take (nat avail) e1)" using lav bf(1,2) by simp
    then have "take (nat a) (take (nat avail) e1 @ concat src1) = take (nat a) (take (nat avail) e1)"
      by simp
    also have "\<dots> = take (nat a) e1" using bf(1,2) by (simp add: min_def)
    finally show ?thesis by (simp add: P)
  qed
  have Fa: "0 < a \<longrightarrow>
      F (bds_crypto s) (take (nat a) (BlockDecryptionStream_pending s)) = (out, k')"
    using F unfolding a_def avail_def len_def w_def B_def .
  have Na: "a = 0 \<longrightarrow> (out, k') = ([], bds_crypto s)"
    using nil unfolding a_def avail_def len_def w_def B_def .
  have rem: "c_rem avail B = Inr (avail mod B)" using c_rem_pos [OF av(1) B0] .
  define s1 where "s1 = s\<lparr>bds_encrypedBuffer := e1, bds_writePos := avail, bds_source := src1\<rparr>"
  note defs = avail_def len_def w_def B_def E_def
  have gaw: "BlockDecryptionStream_GetAvailableWrite s = 4096 - bds_writePos s"
    using le by (simp add: BlockDecryptionStream_GetAvailableWrite_def
        BlockDecryptionStream_GetUsedWrite_def TWN_ARRAY_SIZE_def E_def)
  have lenq: "min (BlockDecryptionStream_GetAvailableWrite s) (int (length buffer)) = len"
    by (simp add: gaw len_def w_def)
  note unf = Decrypt_pass_unfold [OF lenq mw [unfolded E_def w_def]
      rem [unfolded avail_def w_def B_def], of _ F]
  show ?thesis
  proof (cases "0 < avail - avail mod B - B")
    case False
    then have a0: "a = 0" by (simp add: a_def bytesToRead_def)
    from False have ad: "\<not> 0 < bds_writePos s + len - avail mod B - bds_blockSize s"
      by (simp add: avail_def w_def B_def)
    from Na a0 have o: "out = []" "k' = bds_crypto s" by simp_all
    have lout: "int (length out) = a" using o a0 by simp
    have run: "BlockDecryptionStream_Decrypt_pass F buffer s = Inr (len, s1)"
      unfolding s1_def src1_def avail_def w_def
      by (simp only: unf [OF refl] if_not_P [OF ad [unfolded avail_def w_def B_def]])
    have inv1: "BlockDecryptionStream_inv s1"
      using inv z av le1 by (simp add: BlockDecryptionStream_inv_def s1_def TWN_ARRAY_SIZE_def)
    have "BlockDecryptionStream_pending s1 = take (nat avail) e1 @ concat src1"
      using av by (simp add: BlockDecryptionStream_pending_def s1_def)
    then have "BlockDecryptionStream_pending s1 = BlockDecryptionStream_pending s"
      by (simp only: P)
    moreover have "BlockDecryptionStream_window s1 = []"
      using z by (simp add: BlockDecryptionStream_window_def s1_def)
    ultimately have "BlockDecryptionStream_Decrypt_pass F buffer s = Inr (len, s1)
            \<and> BlockDecryptionStream_inv s1
            \<and> bds_blockSize s1 = B
            \<and> bds_readPos s1 = 0
            \<and> bds_readEnd s1 = a
            \<and> bds_writePos s1 = avail - a
            \<and> bds_crypto s1 = k'
            \<and> BlockDecryptionStream_window s1 = out
            \<and> int (length out) = a
            \<and> bds_source s1 = ReadStream_AdvanceRead len (bds_source s)
            \<and> BlockDecryptionStream_pending s1 = drop (nat a) (BlockDecryptionStream_pending s)"
      using run inv1 z a0 o lout by (simp add: s1_def B_def src1_def)
    then show ?thesis
      unfolding a_def avail_def len_def w_def B_def by blast
  next
    case True
    then have ad': "avail - avail mod B - B = a" by (simp add: a_def bytesToRead_def)
    have apos: "0 < a" using True ad' by simp
    have ad: "bds_writePos s + len - avail mod B - bds_blockSize s = a"
      using ad' by (simp add: avail_def w_def B_def)
    from Fa apos
    have "F (bds_crypto s) (take (nat a) (BlockDecryptionStream_pending s)) = (out, k')"
      by simp
    then have F': "F (bds_crypto s) (take (nat a) e1) = (out, k')"
      by (simp only: ta)
    have lout: "int (length out) = a"
      using length_preservingD [OF lp F'] length_take_nat(2) [of a e1] bf(1,2) av le1 by simp
    define b2 where "b2 = take (nat 0) (bds_buffer s) @ out @ drop (nat 0 + length out) (bds_buffer s)"
    have ci: "Cipher F (bds_crypto s) e1 (bds_buffer s) 0 a = Inr (int (length out), b2, k')"
      unfolding b2_def using F' bf(1,2) av le1 lout lb by (intro Cipher_eq) simp_all
    define tail where "tail = take (nat (avail - a)) (drop (nat a) e1)"
    have rd: "memread e1 a (avail - a) = Inr tail"
      unfolding tail_def using bf(1,2) av le1 by (intro memread_ok) simp_all
    have ltail: "length tail = nat (avail - a)"
      unfolding tail_def using bf(1,2) av le1 by (intro length_take_nat) simp_all
    define e2 where "e2 = take (nat 0) e1 @ tail @ drop (nat 0 + length tail) e1"
    have wr: "memwrite e1 0 tail = Inr e2"
      unfolding e2_def using ltail bf(1,2) av le1 by (intro memwrite_ok) simp_all
    define s2 where "s2 = s1\<lparr>bds_crypto := k', bds_buffer := b2, bds_readEnd := int (length out),
                  bds_encrypedBuffer := e2, bds_writePos := avail - a\<rparr>"
    have run: "BlockDecryptionStream_Decrypt_pass F buffer s = Inr (len, s2)"
      unfolding s2_def s1_def src1_def avail_def w_def
      by (simp only: unf [OF ad [unfolded avail_def w_def B_def]] if_P [OF apos] ci bindF_Inr
          prod.case rd [unfolded avail_def w_def] wr)
    have lb2: "length b2 = 4096" using lout bf(1,2) av lb by (simp add: b2_def)
    have le2: "length e2 = 4096" using ltail bf(1,2) av le1 by (simp add: e2_def)
    have inv2: "BlockDecryptionStream_inv s2"
      using inv z av bf(1,2) lb2 le2 lout
      by (simp add: BlockDecryptionStream_inv_def s2_def s1_def TWN_ARRAY_SIZE_def)
    have win: "BlockDecryptionStream_window s2 = out"
      using z by (simp add: BlockDecryptionStream_window_def s2_def s1_def b2_def)
    have pend: "BlockDecryptionStream_pending s2 = drop (nat a) (BlockDecryptionStream_pending s)"
    proof -
      have "take (nat (avail - a)) e2 = tail"
        using ltail by (simp add: e2_def)
      moreover have "tail = drop (nat a) (take (nat avail) e1)"
        using bf(1,2) by (simp add: tail_def drop_take nat_diff_distrib)
      moreover have "drop (nat a) (take (nat avail) e1 @ concat src1)
          = drop (nat a) (take (nat avail) e1) @ concat src1"
        using lav bf(1,2) by simp
      moreover have "BlockDecryptionStream_pending s2 = take (nat (avail - a)) e2 @ concat src1"
        by (simp add: BlockDecryptionStream_pending_def s2_def s1_def)
      ultimately show ?thesis
        by (simp only: P)
    qed
    have "BlockDecryptionStream_Decrypt_pass F buffer s = Inr (len, s2)
            \<and> BlockDecryptionStream_inv s2
            \<and> bds_blockSize s2 = B
            \<and> bds_readPos s2 = 0
            \<and> bds_readEnd s2 = a
            \<and> bds_writePos s2 = avail - a
            \<and> bds_crypto s2 = k'
            \<and> BlockDecryptionStream_window s2 = out
            \<and> int (length out) = a
            \<and> bds_source s2 = ReadStream_AdvanceRead len (bds_source s)
            \<and> BlockDecryptionStream_pending s2 = drop (nat a) (BlockDecryptionStream_pending s)"
      using run inv2 z win pend lout by (simp add: s2_def s1_def B_def src1_def)
    then show ?thesis
      unfolding a_def avail_def len_def w_def B_def by blast
  qed
qed

lemma Decrypt_pass_step:
  assumes inv: "BlockDecryptionStream_inv s"
    and z: "bds_readPos s = 0" "bds_readEnd s = 0"
    and lp: "length_preserving F"
    and nil: "F (bds_crypto s) [] = ([], bds_crypto s)"
    and g: "0 < BlockDecryptionStream_GetAvailableWrite s"
    and nx: "ReadStream_NextRead (bds_source s) = Some buffer"
    and F: "F (bds_crypto s)
              (take (nat (bytesToRead (bds_blockSize s)
                     (bds_writePos s + min (4096 - bds_writePos s) (int (length buffer)))))
                 (BlockDecryptionStream_pending s)) = (out, k')"
  shows "\<exists>s'. BlockDecryptionStream_Decrypt_pass F buffer s
                 = Inr (min (4096 - bds_writePos s) (int (length buffer)), s')
            \<and> BlockDecryptionStream_inv s'
            \<and> bds_blockSize s' = bds_blockSize s
            \<and> bds_readPos s' = 0
            \<and> bds_readEnd s' = bytesToRead (bds_blockSize s)
                     (bds_writePos s + min (4096 - bds_writePos s) (int (length buffer)))
            \<and> bds_writePos s' = bds_writePos s + min (4096 - bds_writePos s) (int (length buffer))
                  - bytesToRead (bds_blockSize s)
                     (bds_writePos s + min (4096 - bds_writePos s) (int (length buffer)))
            \<and> bds_crypto s' = k'
            \<and> BlockDecryptionStream_window s' = out
            \<and> int (length out) = bytesToRead (bds_blockSize s)
                     (bds_writePos s + min (4096 - bds_writePos s) (int (length buffer)))
            \<and> bds_source s' = ReadStream_AdvanceRead
                     (min (4096 - bds_writePos s) (int (length buffer))) (bds_source s)
            \<and> BlockDecryptionStream_pending s' =
                 drop (nat (bytesToRead (bds_blockSize s)
                     (bds_writePos s + min (4096 - bds_writePos s) (int (length buffer)))))
                   (BlockDecryptionStream_pending s)"
proof (rule Decrypt_pass_step_gen [OF inv z lp g nx])
  show "bytesToRead (bds_blockSize s)
          (bds_writePos s + min (4096 - bds_writePos s) (int (length buffer))) = 0
        \<longrightarrow> (out, k') = ([], bds_crypto s)"
    using F nil by auto
  show "0 < bytesToRead (bds_blockSize s)
                (bds_writePos s + min (4096 - bds_writePos s) (int (length buffer)))
              \<longrightarrow> F (bds_crypto s)
              (take (nat (bytesToRead (bds_blockSize s)
                     (bds_writePos s + min (4096 - bds_writePos s) (int (length buffer)))))
                 (BlockDecryptionStream_pending s)) = (out, k')"
    using F by simp
qed

lemma Decrypt_loop_spec:
  "BlockDecryptionStream_inv s \<Longrightarrow> bds_readPos s = 0 \<Longrightarrow> bds_readEnd s = 0
   \<Longrightarrow> bds_writePos s < 2 * bds_blockSize s \<Longrightarrow> 2 * bds_blockSize s \<le> 4096
   \<Longrightarrow> length_preserving F \<Longrightarrow> chunk_independent (bds_blockSize s) F
   \<Longrightarrow> \<exists>m s' a. BlockDecryptionStream_Decrypt_loop F n s = Inr (m, s')
         \<and> BlockDecryptionStream_inv s'
         \<and> bds_blockSize s' = bds_blockSize s
         \<and> bds_readPos s' = 0 \<and> bds_readEnd s' = a
         \<and> 0 \<le> a \<and> a mod bds_blockSize s = 0
         \<and> a \<le> int (length (BlockDecryptionStream_pending s))
         \<and> F (bds_crypto s) (take (nat a) (BlockDecryptionStream_pending s))
               = (BlockDecryptionStream_window s', bds_crypto s')
         \<and> BlockDecryptionStream_pending s' = drop (nat a) (BlockDecryptionStream_pending s)
         \<and> bds_writePos s' < 2 * bds_blockSize s
         \<and> (a = 0 \<longrightarrow> bds_source s' = [])
         \<and> (0 < a \<longrightarrow> bds_blockSize s \<le> bds_writePos s' \<and> n < m)
         \<and> n \<le> m"
proof (induction F n s rule: BlockDecryptionStream_Decrypt_loop.induct)
  case (1 F bytesRead s)
  note unf = BlockDecryptionStream_Decrypt_loop.simps [of F bytesRead s]
  define B where "B = bds_blockSize s"
  define w where "w = bds_writePos s"
  note inv = "1.prems"(1) and z = "1.prems"(2,3) and w2 = "1.prems"(4) and B2 = "1.prems"(5)
    and lp = "1.prems"(6) and ci = "1.prems"(7)
  from inv have B0: "0 < B" and w0: "0 \<le> w" and le: "length (bds_encrypedBuffer s) = 4096"
    by (auto simp: BlockDecryptionStream_inv_def B_def w_def)
  have nil: "F (bds_crypto s) [] = ([], bds_crypto s)"
    by (rule chunk_independent_Nil [OF ci])
  have gaw: "BlockDecryptionStream_GetAvailableWrite s = 4096 - w"
    using le by (simp add: BlockDecryptionStream_GetAvailableWrite_def
        BlockDecryptionStream_GetUsedWrite_def TWN_ARRAY_SIZE_def w_def)
  have g: "BlockDecryptionStream_GetAvailableWrite s > 0
         \<and> BlockDecryptionStream_GetAvailableRead s < bds_blockSize s"
    using w2 B2 B0 z by (simp add: gaw BlockDecryptionStream_GetAvailableRead_def B_def w_def)
  have win0: "BlockDecryptionStream_window s = []"
    using z by (simp add: BlockDecryptionStream_window_def)
  show ?case
  proof (cases "ReadStream_NextRead (bds_source s)")
    case None
    then have src: "bds_source s = []"
      by (simp add: ReadStream_NextRead_def split: list.splits)
    have run: "BlockDecryptionStream_Decrypt_loop F bytesRead s = Inr (bytesRead, s)"
      using g None by (simp add: unf)
    show ?thesis
      apply (rule exI [of _ bytesRead], rule exI [of _ s], rule exI [of _ 0])
      using run inv z nil win0 w2 src by simp
  next
    case (Some buffer)
    define len where "len = min (4096 - w) (int (length buffer))"
    define avail where "avail = w + len"
    define a1 where "a1 = bytesToRead B avail"
    have len0: "0 \<le> len" using w2 B2 by (simp add: len_def w_def)
    have av0: "0 \<le> avail" using w0 len0 by (simp add: avail_def)
    note bf = bytesToRead_facts [OF B0 av0, folded a1_def]
    obtain out k' where F: "F (bds_crypto s) (take (nat a1) (BlockDecryptionStream_pending s))
        = (out, k')"
      by (cases "F (bds_crypto s) (take (nat a1) (BlockDecryptionStream_pending s))")
    from Decrypt_pass_step [OF inv z lp nil conjunct1 [OF g] Some, of out k']
      F [unfolded a1_def avail_def len_def w_def B_def]
    obtain s1 where p: "BlockDecryptionStream_Decrypt_pass F buffer s = Inr (len, s1)"
      and inv1: "BlockDecryptionStream_inv s1" and B1: "bds_blockSize s1 = B"
      and rp1: "bds_readPos s1 = 0" and re1: "bds_readEnd s1 = a1"
      and w1: "bds_writePos s1 = avail - a1" and k1: "bds_crypto s1 = k'"
      and win1: "BlockDecryptionStream_window s1 = out" and lout: "int (length out) = a1"
      and pend1: "BlockDecryptionStream_pending s1 = drop (nat a1) (BlockDecryptionStream_pending s)"
      unfolding a1_def avail_def len_def w_def B_def by blast
    have rec: "BlockDecryptionStream_Decrypt_loop F bytesRead s
        = BlockDecryptionStream_Decrypt_loop F (bytesRead + len) s1"
      using g Some p by (simp add: unf)
    have ale: "a1 \<le> int (length (BlockDecryptionStream_pending s))"
    proof -
      have "length out = length (take (nat a1) (BlockDecryptionStream_pending s))"
        by (rule length_preservingD [OF lp F])
      then show ?thesis using lout by simp
    qed
    show ?thesis
    proof (cases "0 < a1")
      case True
      have stop: "BlockDecryptionStream_Decrypt_loop F (bytesRead + len) s1 = Inr (bytesRead + len, s1)"
        using bf(6) [OF True] rp1 re1 B1
        by (simp add: BlockDecryptionStream_Decrypt_loop.simps [of F "bytesRead + len" s1]
            BlockDecryptionStream_GetAvailableRead_def)
      have "2 * B \<le> avail"
      proof (rule ccontr)
        assume "\<not> 2 * B \<le> avail"
        then have "a1 = 0" using bf(8) by simp
        with True show False by simp
      qed
      then have lpos: "0 < len" using w2 by (simp add: avail_def w_def B_def)
      show ?thesis
        apply (rule exI [of _ "bytesRead + len"], rule exI [of _ s1], rule exI [of _ a1])
        using rec stop inv1 B1 rp1 re1 bf(1,3,4) bf(5) [OF True] ale F win1 k1 pend1 w1 True lpos
        by (simp add: B_def)
    next
      case False
      with bf(1) have a0: "a1 = 0" by simp
      from F nil a0 have o: "out = []" "k' = bds_crypto s" by simp_all
      have pe: "BlockDecryptionStream_pending s1 = BlockDecryptionStream_pending s"
        using pend1 a0 by simp
      have "\<exists>m s' a. BlockDecryptionStream_Decrypt_loop F (bytesRead + len) s1 = Inr (m, s')
         \<and> BlockDecryptionStream_inv s'
         \<and> bds_blockSize s' = bds_blockSize s1
         \<and> bds_readPos s' = 0 \<and> bds_readEnd s' = a
         \<and> 0 \<le> a \<and> a mod bds_blockSize s1 = 0
         \<and> a \<le> int (length (BlockDecryptionStream_pending s1))
         \<and> F (bds_crypto s1) (take (nat a) (BlockDecryptionStream_pending s1))
               = (BlockDecryptionStream_window s', bds_crypto s')
         \<and> BlockDecryptionStream_pending s' = drop (nat a) (BlockDecryptionStream_pending s1)
         \<and> bds_writePos s' < 2 * bds_blockSize s1
         \<and> (a = 0 \<longrightarrow> bds_source s' = [])
         \<and> (0 < a \<longrightarrow> bds_blockSize s1 \<le> bds_writePos s' \<and> bytesRead + len < m)
         \<and> bytesRead + len \<le> m"
      proof (rule "1.IH" [OF g Some p refl inv1 rp1])
        show "bds_readEnd s1 = 0" using re1 a0 by simp
        show "bds_writePos s1 < 2 * bds_blockSize s1" using w1 a0 bf(4) B1 by simp
        show "2 * bds_blockSize s1 \<le> 4096" using B2 B1 by (simp add: B_def)
        show "length_preserving F" by fact
        show "chunk_independent (bds_blockSize s1) F" using ci B1 by (simp add: B_def)
      qed
      then obtain m s' a where
        r: "BlockDecryptionStream_Decrypt_loop F (bytesRead + len) s1 = Inr (m, s')"
        and rest: "BlockDecryptionStream_inv s'" "bds_blockSize s' = B" "bds_readPos s' = 0"
          "bds_readEnd s' = a" "0 \<le> a" "a mod B = 0"
          "a \<le> int (length (BlockDecryptionStream_pending s))"
          "F (bds_crypto s) (take (nat a) (BlockDecryptionStream_pending s))
               = (BlockDecryptionStream_window s', bds_crypto s')"
          "BlockDecryptionStream_pending s' = drop (nat a) (BlockDecryptionStream_pending s)"
          "bds_writePos s' < 2 * B" "a = 0 \<longrightarrow> bds_source s' = []"
          "0 < a \<longrightarrow> B \<le> bds_writePos s' \<and> bytesRead + len < m" "bytesRead + len \<le> m"
        unfolding pe B1 k1 o by (elim exE conjE) (rule that, assumption+)
      show ?thesis
        apply (rule exI [of _ m], rule exI [of _ s'], rule exI [of _ a])
        using rec r rest len0 by (auto simp: B_def)
    qed
  qed
qed

section \<open>What a pass withholds, what Decrypt returns\<close>

lemma Decrypt_loop_bytes:
  "BlockDecryptionStream_Decrypt_loop F n s = Inr (m, s') \<Longrightarrow>
     m = n + int (length (concat (bds_source s))) - int (length (concat (bds_source s')))"
proof (induction F n s rule: BlockDecryptionStream_Decrypt_loop.induct)
  case (1 F bytesRead s)
  note unf = BlockDecryptionStream_Decrypt_loop.simps [of F bytesRead s]
  show ?case
  proof (cases "BlockDecryptionStream_GetAvailableWrite s > 0
         \<and> BlockDecryptionStream_GetAvailableRead s < bds_blockSize s")
    case False
    with "1.prems" show ?thesis by (simp add: unf)
  next
    case g: True
    show ?thesis
    proof (cases "ReadStream_NextRead (bds_source s)")
      case None
      with g "1.prems" show ?thesis by (simp add: unf)
    next
      case (Some buffer)
      show ?thesis
      proof (cases "BlockDecryptionStream_Decrypt_pass F buffer s")
        case (Inl e)
        with g Some "1.prems" show ?thesis by (simp add: unf)
      next
        case (Inr r)
        obtain len s1 where r: "r = (len, s1)" by (cases r)
        from g Some Inr r "1.prems"
        have rec: "BlockDecryptionStream_Decrypt_loop F (bytesRead + len) s1 = Inr (m, s')"
          by (simp add: unf)
        note src = Decrypt_pass_source [OF Inr [unfolded r]]
        have l: "0 \<le> len" "len \<le> int (length buffer)"
          using src g by (auto simp: min_def split: if_splits)
        have "length (take (nat len) buffer @ concat (bds_source s1)) = length (concat (bds_source s))"
          using concat_AdvanceRead [OF Some l] src by simp
        moreover have "length (take (nat len) buffer) = nat len"
          using l by (intro length_take_nat) simp_all
        ultimately have "int (nat len + length (concat (bds_source s1)))
            = int (length (concat (bds_source s)))"
          by (simp only: length_append)
        then have "len + int (length (concat (bds_source s1))) = int (length (concat (bds_source s)))"
          using l by simp
        with "1.IH" [OF g Some Inr r [symmetric] rec] show ?thesis by simp
      qed
    qed
  qed
qed

text \<open>
  Claim C7, amended. After every pass of the loop of \<^verbatim>\<open>Decrypt\<close> the withheld tail of
  the ciphertext buffer is shorter than two blocks. A pass that transformed data
  withholds one whole block and the bytes beyond the last block boundary, so at least
  one block; a pass that transformed nothing withholds all it has accumulated.
\<close>

theorem Decrypt_pass_withheld:
  assumes "BlockDecryptionStream_inv s" and "bds_readPos s = 0" and "bds_readEnd s = 0"
    and "length_preserving F" and "F (bds_crypto s) [] = ([], bds_crypto s)"
    and "0 < BlockDecryptionStream_GetAvailableWrite s"
    and "ReadStream_NextRead (bds_source s) = Some buffer"
  shows "\<exists>len s'. BlockDecryptionStream_Decrypt_pass F buffer s = Inr (len, s')
           \<and> bds_writePos s' < 2 * bds_blockSize s
           \<and> (0 < bds_readEnd s' \<longrightarrow>
                 bds_writePos s' = (bds_writePos s + len) mod bds_blockSize s + bds_blockSize s
               \<and> bds_blockSize s \<le> bds_writePos s')
           \<and> (bds_readEnd s' = 0 \<longrightarrow> bds_writePos s' = bds_writePos s + len)"
proof -
  define len where "len = min (4096 - bds_writePos s) (int (length buffer))"
  define a where "a = bytesToRead (bds_blockSize s) (bds_writePos s + len)"
  from assms(1) have B0: "0 < bds_blockSize s" and w0: "0 \<le> bds_writePos s"
    and le: "length (bds_encrypedBuffer s) = 4096"
    by (auto simp: BlockDecryptionStream_inv_def)
  have "bds_writePos s < 4096" using assms(6) le
    by (simp add: BlockDecryptionStream_GetAvailableWrite_def
        BlockDecryptionStream_GetUsedWrite_def TWN_ARRAY_SIZE_def)
  then have av0: "0 \<le> bds_writePos s + len" using w0 by (simp add: len_def)
  note bf = bytesToRead_facts [OF B0 av0, folded a_def]
  obtain out k' where F: "F (bds_crypto s) (take (nat a) (BlockDecryptionStream_pending s))
        = (out, k')"
    by (cases "F (bds_crypto s) (take (nat a) (BlockDecryptionStream_pending s))")
  from Decrypt_pass_step [OF assms(1,2,3,4,5,6,7), of out k'] F [unfolded a_def len_def]
  obtain s' where p: "BlockDecryptionStream_Decrypt_pass F buffer s = Inr (len, s')"
    and re: "bds_readEnd s' = a" and w': "bds_writePos s' = bds_writePos s + len - a"
    unfolding a_def len_def by blast
  show ?thesis
    apply (rule exI [of _ len], rule exI [of _ s'])
    using p re w' bf(4) bf(5) bf(7) by auto
qed

text \<open>
  Claim C7 as stated fails, with ciphertext still to come: block size 16 and a source
  of two spans of 32 bytes. The pass on the first span transforms 16 bytes and withholds
  16, which is not less than the block size. The caller then consumes the 16 bytes, and
  the next \<^verbatim>\<open>NextRead\<close> pulls the second span and hands out 32 more bytes: the pass was
  not the one before \<^verbatim>\<open>Flush\<close>.
\<close>

theorem Decrypt_pass_withheld_counterexample:
  "BlockDecryptionStream_Decrypt_pass sub_cipher (replicate 32 5)
      \<lparr>bds_source = [replicate 32 5, replicate 32 5], bds_crypto = 1, bds_blockSize = 16,
       bds_buffer = replicate 4096 0, bds_encrypedBuffer = replicate 4096 0,
       bds_readPos = 0, bds_readEnd = 0, bds_writePos = 0\<rparr>
    = Inr (32, \<lparr>bds_source = [replicate 32 5], bds_crypto = 1, bds_blockSize = 16,
                bds_buffer = replicate 16 4 @ replicate 4080 0,
                bds_encrypedBuffer = replicate 32 5 @ replicate 4064 0,
                bds_readPos = 0, bds_readEnd = 16, bds_writePos = 16\<rparr>)
 \<and> \<not> BlockDecryptionStream_GetUsedWrite
         \<lparr>bds_source = [replicate 32 5], bds_crypto = (1 :: byte), bds_blockSize = 16,
          bds_buffer = replicate 16 4 @ replicate 4080 0,
          bds_encrypedBuffer = replicate 32 5 @ replicate 4064 0,
          bds_readPos = 0, bds_readEnd = 16, bds_writePos = 16\<rparr> < 16
 \<and> BlockDecryptionStream_AdvanceRead True 16
      \<lparr>bds_source = [replicate 32 5], bds_crypto = (1 :: byte), bds_blockSize = 16,
       bds_buffer = replicate 16 4 @ replicate 4080 0,
       bds_encrypedBuffer = replicate 32 5 @ replicate 4064 0,
       bds_readPos = 0, bds_readEnd = 16, bds_writePos = 16\<rparr>
    = Inr (True, \<lparr>bds_source = [replicate 32 5], bds_crypto = 1, bds_blockSize = 16,
                  bds_buffer = replicate 16 4 @ replicate 4080 0,
                  bds_encrypedBuffer = replicate 32 5 @ replicate 4064 0,
                  bds_readPos = 16, bds_readEnd = 16, bds_writePos = 16\<rparr>)
 \<and> BlockDecryptionStream_NextRead sub_cipher
      \<lparr>bds_source = [replicate 32 5], bds_crypto = 1, bds_blockSize = 16,
       bds_buffer = replicate 16 4 @ replicate 4080 0,
       bds_encrypedBuffer = replicate 32 5 @ replicate 4064 0,
       bds_readPos = 16, bds_readEnd = 16, bds_writePos = 16\<rparr>
    = Inr (Some (0, 32),
           \<lparr>bds_source = [], bds_crypto = 1, bds_blockSize = 16,
            bds_buffer = replicate 32 4 @ replicate 4064 0,
            bds_encrypedBuffer = replicate 48 5 @ replicate 4048 0,
            bds_readPos = 0, bds_readEnd = 32, bds_writePos = 16\<rparr>)"
  by (simp add: BlockDecryptionStream_Decrypt_pass_def BlockDecryptionStream_GetAvailableWrite_def
      BlockDecryptionStream_GetUsedWrite_def TWN_ARRAY_SIZE_def Let_def memwrite_def memread_def
      c_rem_def Cipher_def sub_cipher_def ReadStream_AdvanceRead_def
      BlockDecryptionStream_AdvanceRead_def TWN_REQUIRE_def
      BlockDecryptionStream_GetAvailableRead_def BlockDecryptionStream_NextRead_def
      BlockDecryptionStream_Decrypt_def BlockDecryptionStream_Decrypt_loop.simps
      ReadStream_NextRead_def replicate_add [symmetric])

theorem Decrypt_pass_withheld_witness:
  "\<exists>len s'. BlockDecryptionStream_Decrypt_pass sub_cipher (replicate 32 5)
      \<lparr>bds_source = [replicate 32 5], bds_crypto = 1, bds_blockSize = 16,
       bds_buffer = replicate 4096 0, bds_encrypedBuffer = replicate 4096 0,
       bds_readPos = 0, bds_readEnd = 0, bds_writePos = 0\<rparr> = Inr (len, s')
     \<and> bds_writePos s' < 32"
  using Decrypt_pass_withheld [of "\<lparr>bds_source = [replicate 32 5], bds_crypto = 1,
       bds_blockSize = 16,
       bds_buffer = replicate 4096 0, bds_encrypedBuffer = replicate 4096 0,
       bds_readPos = 0, bds_readEnd = 0, bds_writePos = 0\<rparr>" sub_cipher "replicate 32 5"]
    length_preserving_sub_cipher
  by (simp add: BlockDecryptionStream_inv_def TWN_ARRAY_SIZE_def sub_cipher_def
      BlockDecryptionStream_GetAvailableWrite_def BlockDecryptionStream_GetUsedWrite_def
      ReadStream_NextRead_def) blast

text \<open>
  Claim C6, amended. \<^verbatim>\<open>Decrypt\<close> returns success if and only if the call pulled at least
  one byte of ciphertext from the source. A call that produced plaintext returns
  success; when the source has no more data the call returns non-success, and
  \<^verbatim>\<open>NextRead\<close> on a drained window returns what \<^verbatim>\<open>Decrypt\<close> returned: a span from the
  start of the window on success, failure otherwise.
\<close>

theorem Decrypt_success_iff_pulled:
  assumes "BlockDecryptionStream_inv s" and "bds_writePos s < 2 * bds_blockSize s"
    and "2 * bds_blockSize s \<le> 4096"
    and "length_preserving F" and "chunk_independent (bds_blockSize s) F"
  shows "\<exists>ok s'. BlockDecryptionStream_Decrypt F s = Inr (ok, s')
           \<and> (ok \<longleftrightarrow> length (concat (bds_source s')) < length (concat (bds_source s)))
           \<and> bds_readPos s' = 0
           \<and> (0 < bds_readEnd s' \<longrightarrow> ok)
           \<and> (bds_source s = [] \<longrightarrow> \<not> ok)
           \<and> (BlockDecryptionStream_GetAvailableRead s = 0 \<longrightarrow>
                 BlockDecryptionStream_NextRead F s
                   = Inr (if ok then Some (0, bds_readEnd s') else None, s'))"
proof -
  define s0 where "s0 = s\<lparr>bds_readPos := 0, bds_readEnd := 0\<rparr>"
  have inv0: "BlockDecryptionStream_inv s0"
    using assms(1,2,3) by (simp add: BlockDecryptionStream_inv_def s0_def TWN_ARRAY_SIZE_def)
  from Decrypt_loop_spec [OF inv0, of F 0] assms(2-5)
  obtain m s' a where l: "BlockDecryptionStream_Decrypt_loop F 0 s0 = Inr (m, s')"
    and rp: "bds_readPos s' = 0" and re: "bds_readEnd s' = a"
    and am: "0 < a \<longrightarrow> 0 < m" and m0: "0 \<le> m"
    by (auto simp: s0_def)
  from Decrypt_loop_bytes [OF l]
  have mb: "m = int (length (concat (bds_source s))) - int (length (concat (bds_source s')))"
    by (simp add: s0_def)
  have d: "BlockDecryptionStream_Decrypt F s = Inr (0 < m, s')"
    using l by (simp add: BlockDecryptionStream_Decrypt_def s0_def)
  show ?thesis
    apply (rule exI [of _ "0 < m"], rule exI [of _ s'])
    using d mb rp re am m0
    by (auto simp: BlockDecryptionStream_NextRead_def)
qed

text \<open>
  Claim C6 as stated fails: with block size 16 and a source that holds one block,
  \<^verbatim>\<open>Decrypt\<close> pulls the block, withholds it, produces no plaintext and returns success;
  \<^verbatim>\<open>NextRead\<close> then succeeds with an empty span.
\<close>

theorem Decrypt_success_iff_pulled_counterexample:
  "BlockDecryptionStream_Decrypt sub_cipher
      \<lparr>bds_source = [replicate 16 5], bds_crypto = 1, bds_blockSize = 16,
       bds_buffer = replicate 4096 0, bds_encrypedBuffer = replicate 4096 0,
       bds_readPos = 0, bds_readEnd = 0, bds_writePos = 0\<rparr>
    = Inr (True, \<lparr>bds_source = [], bds_crypto = 1, bds_blockSize = 16,
                  bds_buffer = replicate 4096 0,
                  bds_encrypedBuffer = replicate 16 5 @ replicate 4080 0,
                  bds_readPos = 0, bds_readEnd = 0, bds_writePos = 16\<rparr>)
 \<and> BlockDecryptionStream_NextRead sub_cipher
      \<lparr>bds_source = [replicate 16 5], bds_crypto = 1, bds_blockSize = 16,
       bds_buffer = replicate 4096 0, bds_encrypedBuffer = replicate 4096 0,
       bds_readPos = 0, bds_readEnd = 0, bds_writePos = 0\<rparr>
    = Inr (Some (0, 0), \<lparr>bds_source = [], bds_crypto = 1, bds_blockSize = 16,
                  bds_buffer = replicate 4096 0,
                  bds_encrypedBuffer = replicate 16 5 @ replicate 4080 0,
                  bds_readPos = 0, bds_readEnd = 0, bds_writePos = 16\<rparr>)"
proof -
  let ?s0 = "\<lparr>bds_source = [replicate 16 5], bds_crypto = (1 :: byte), bds_blockSize = 16,
       bds_buffer = replicate 4096 0, bds_encrypedBuffer = replicate 4096 0,
       bds_readPos = 0, bds_readEnd = 0, bds_writePos = 0\<rparr>"
  let ?s1 = "\<lparr>bds_source = [], bds_crypto = (1 :: byte), bds_blockSize = 16,
                  bds_buffer = replicate 4096 0,
                  bds_encrypedBuffer = replicate 16 5 @ replicate 4080 0,
                  bds_readPos = 0, bds_readEnd = 0, bds_writePos = 16\<rparr>"
  have p: "BlockDecryptionStream_Decrypt_pass sub_cipher (replicate 16 5) ?s0 = Inr (16, ?s1)"
    by (simp add: BlockDecryptionStream_Decrypt_pass_def BlockDecryptionStream_GetAvailableWrite_def
      BlockDecryptionStream_GetUsedWrite_def TWN_ARRAY_SIZE_def Let_def memwrite_def memread_def
      c_rem_def Cipher_def sub_cipher_def ReadStream_AdvanceRead_def)
  have l1: "BlockDecryptionStream_Decrypt_loop sub_cipher 16 ?s1 = Inr (16, ?s1)"
    by (simp add: BlockDecryptionStream_Decrypt_loop.simps [of sub_cipher 16 ?s1]
        BlockDecryptionStream_GetAvailableWrite_def BlockDecryptionStream_GetUsedWrite_def
        BlockDecryptionStream_GetAvailableRead_def TWN_ARRAY_SIZE_def ReadStream_NextRead_def)
  have l0: "BlockDecryptionStream_Decrypt_loop sub_cipher 0 ?s0 = Inr (16, ?s1)"
    by (simp add: BlockDecryptionStream_Decrypt_loop.simps [of sub_cipher 0 ?s0]
        BlockDecryptionStream_GetAvailableWrite_def BlockDecryptionStream_GetUsedWrite_def
        BlockDecryptionStream_GetAvailableRead_def TWN_ARRAY_SIZE_def ReadStream_NextRead_def
        p l1)
  have d: "BlockDecryptionStream_Decrypt sub_cipher ?s0 = Inr (True, ?s1)"
    by (simp add: BlockDecryptionStream_Decrypt_def l0)
  then show ?thesis
    by (simp add: BlockDecryptionStream_NextRead_def BlockDecryptionStream_GetAvailableRead_def)
qed

theorem Decrypt_success_iff_pulled_witness:
  "\<exists>ok s'. BlockDecryptionStream_Decrypt sub_cipher
      \<lparr>bds_source = [replicate 16 5], bds_crypto = 1, bds_blockSize = 16,
       bds_buffer = replicate 4096 0, bds_encrypedBuffer = replicate 4096 0,
       bds_readPos = 0, bds_readEnd = 0, bds_writePos = 0\<rparr> = Inr (ok, s')
    \<and> (ok \<longleftrightarrow> length (concat (bds_source s')) < 16)"
proof -
  have ci: "chunk_independent 16 sub_cipher"
    by (simp add: chunk_independent_def sub_cipher_def)
  from Decrypt_success_iff_pulled [of "\<lparr>bds_source = [replicate 16 5], bds_crypto = 1,
       bds_blockSize = 16,
       bds_buffer = replicate 4096 0, bds_encrypedBuffer = replicate 4096 0,
       bds_readPos = 0, bds_readEnd = 0, bds_writePos = 0\<rparr>" sub_cipher]
    length_preserving_sub_cipher ci
  show ?thesis
    by (simp add: BlockDecryptionStream_inv_def TWN_ARRAY_SIZE_def) blast
qed

section \<open>Round trip\<close>

lemma length_pending_bds:
  assumes "BlockDecryptionStream_inv s"
  shows "bds_writePos s \<le> int (length (BlockDecryptionStream_pending s))"
    and "bds_source s = [] \<Longrightarrow> int (length (BlockDecryptionStream_pending s)) = bds_writePos s"
proof -
  from assms have "0 \<le> bds_writePos s" "bds_writePos s \<le> int (length (bds_encrypedBuffer s))"
    by (auto simp: BlockDecryptionStream_inv_def TWN_ARRAY_SIZE_def)
  then have l: "int (length (take (nat (bds_writePos s)) (bds_encrypedBuffer s))) = bds_writePos s"
    by (rule length_take_nat)
  show "bds_writePos s \<le> int (length (BlockDecryptionStream_pending s))"
    using l by (simp add: BlockDecryptionStream_pending_def)
  show "bds_source s = [] \<Longrightarrow> int (length (BlockDecryptionStream_pending s)) = bds_writePos s"
    using l by (simp add: BlockDecryptionStream_pending_def)
qed

lemma drain_spec:
  "BlockDecryptionStream_inv s \<Longrightarrow> bds_writePos s < 2 * bds_blockSize s
   \<Longrightarrow> 2 * bds_blockSize s \<le> 4096
   \<Longrightarrow> length_preserving F \<Longrightarrow> chunk_independent (bds_blockSize s) F
   \<Longrightarrow> \<exists>s' a. BlockDecryptionStream_drain dbg F acc s
           = Inr (acc @ BlockDecryptionStream_window s
                    @ fst (F (bds_crypto s) (take (nat a) (BlockDecryptionStream_pending s))), s')
         \<and> BlockDecryptionStream_inv s'
         \<and> bds_blockSize s' = bds_blockSize s
         \<and> bds_crypto s' = snd (F (bds_crypto s) (take (nat a) (BlockDecryptionStream_pending s)))
         \<and> bds_source s' = []
         \<and> bds_readPos s' = 0 \<and> bds_readEnd s' = 0
         \<and> BlockDecryptionStream_pending s' = drop (nat a) (BlockDecryptionStream_pending s)
         \<and> 0 \<le> a \<and> a mod bds_blockSize s = 0
         \<and> a \<le> int (length (BlockDecryptionStream_pending s))
         \<and> bds_writePos s' < 2 * bds_blockSize s
         \<and> (bds_blockSize s \<le> int (length (BlockDecryptionStream_pending s))
              \<longrightarrow> bds_blockSize s \<le> bds_writePos s')"
proof (induction dbg F acc s rule: BlockDecryptionStream_drain.induct)
  case (1 dbg F acc s)
  note unf = BlockDecryptionStream_drain.simps [of dbg F acc s]
  define B where "B = bds_blockSize s"
  define P where "P = BlockDecryptionStream_pending s"
  note inv = "1.prems"(1) and w2 = "1.prems"(2) and B2 = "1.prems"(3)
    and lp = "1.prems"(4) and ci = "1.prems"(5)
  from inv have B0: "0 < B" and rp0: "0 \<le> bds_readPos s" and rpe: "bds_readPos s \<le> bds_readEnd s"
    and w0: "0 \<le> bds_writePos s" and fit: "bds_readEnd s + bds_writePos s \<le> 4096"
    and lb: "length (bds_buffer s) = 4096"
    by (auto simp: BlockDecryptionStream_inv_def B_def TWN_ARRAY_SIZE_def)
  have nil: "F k [] = ([], k)" for k
    by (rule chunk_independent_Nil [OF ci])
  show ?case
  proof (cases "BlockDecryptionStream_GetAvailableRead s = 0")
    case False
    define n where "n = bds_readEnd s - bds_readPos s"
    have n0: "0 < n" using False rpe by (simp add: BlockDecryptionStream_GetAvailableRead_def n_def)
    have nr: "BlockDecryptionStream_NextRead F s = Inr (Some (bds_readPos s, n), s)"
      using False by (simp add: BlockDecryptionStream_NextRead_def n_def)
    have mr: "memread (bds_buffer s) (bds_readPos s) n = Inr (BlockDecryptionStream_window s)"
      unfolding BlockDecryptionStream_window_def n_def [symmetric]
      using rp0 n0 fit w0 lb by (intro memread_ok) (simp_all add: n_def)
    define s2 where "s2 = s\<lparr>bds_readPos := bds_readPos s + n\<rparr>"
    have ar: "BlockDecryptionStream_AdvanceRead dbg n s = Inr (True, s2)"
      by (simp add: BlockDecryptionStream_AdvanceRead_def TWN_REQUIRE_def
          BlockDecryptionStream_GetAvailableRead_def n_def s2_def)
    have rec: "BlockDecryptionStream_drain dbg F acc s
        = BlockDecryptionStream_drain dbg F (acc @ BlockDecryptionStream_window s) s2"
      by (simp add: unf nr mr ar)
    have inv2: "BlockDecryptionStream_inv s2"
      using inv by (simp add: BlockDecryptionStream_inv_def s2_def n_def)
    have win2: "BlockDecryptionStream_window s2 = []"
      by (simp add: BlockDecryptionStream_window_def s2_def n_def)
    have pe2: "BlockDecryptionStream_pending s2 = P"
      by (simp add: BlockDecryptionStream_pending_def s2_def P_def)
    have f2: "bds_blockSize s2 = B" "bds_crypto s2 = bds_crypto s" "bds_writePos s2 = bds_writePos s"
      by (simp_all add: s2_def B_def)
    from "1.IH" [OF nr refl refl refl mr ar refl inv2] w2 B2 lp ci
    show ?thesis
      unfolding rec win2 pe2 f2 P_def [symmetric] B_def [symmetric] by simp
  next
    case True
    have win0: "BlockDecryptionStream_window s = []"
      using True by (simp add: BlockDecryptionStream_window_def BlockDecryptionStream_GetAvailableRead_def)
    define s0 where "s0 = s\<lparr>bds_readPos := 0, bds_readEnd := 0\<rparr>"
    have inv0: "BlockDecryptionStream_inv s0"
      using inv w2 B2 by (simp add: BlockDecryptionStream_inv_def s0_def TWN_ARRAY_SIZE_def)
    have pe0: "BlockDecryptionStream_pending s0 = P"
      by (simp add: BlockDecryptionStream_pending_def s0_def P_def)
    from Decrypt_loop_spec [OF inv0, of F 0] w2 B2 lp ci
    obtain m s1 a1 where l: "BlockDecryptionStream_Decrypt_loop F 0 s0 = Inr (m, s1)"
      and inv1: "BlockDecryptionStream_inv s1" and B1: "bds_blockSize s1 = B"
      and rp1: "bds_readPos s1 = 0" and re1: "bds_readEnd s1 = a1"
      and a10: "0 \<le> a1" and a1m: "a1 mod B = 0" and a1l: "a1 \<le> int (length P)"
      and F1: "F (bds_crypto s) (take (nat a1) P) = (BlockDecryptionStream_window s1, bds_crypto s1)"
      and pe1: "BlockDecryptionStream_pending s1 = drop (nat a1) P"
      and w1: "bds_writePos s1 < 2 * B"
      and fin: "a1 = 0 \<longrightarrow> bds_source s1 = []"
      and pos: "0 < a1 \<longrightarrow> B \<le> bds_writePos s1 \<and> 0 < m" and m0: "0 \<le> m"
      unfolding pe0 by (auto simp: s0_def B_def)
    have d: "BlockDecryptionStream_Decrypt F s = Inr (0 < m, s1)"
      using l by (simp add: BlockDecryptionStream_Decrypt_def s0_def)
    show ?thesis
    proof (cases "0 < m")
      case False
      have nr: "BlockDecryptionStream_NextRead F s = Inr (None, s1)"
        using True d False by (simp add: BlockDecryptionStream_NextRead_def)
      have run: "BlockDecryptionStream_drain dbg F acc s = Inr (acc, s1)"
        by (simp add: unf nr)
      from False pos a10 have a0: "a1 = 0" by auto
      with fin have src: "bds_source s1 = []" by simp
      from F1 a0 nil have o: "BlockDecryptionStream_window s1 = []" "bds_crypto s1 = bds_crypto s"
        by simp_all
      have lw: "int (length P) = bds_writePos s1"
        using length_pending_bds(2) [OF inv1 src] pe1 a0 by simp
      show ?thesis
        apply (rule exI [of _ s1], rule exI [of _ 0])
        using run inv1 B1 src rp1 re1 a0 pe1 w1 o win0 nil lw
        by (simp add: P_def [symmetric] B_def [symmetric])
    next
      case mpos: True
      have nr: "BlockDecryptionStream_NextRead F s = Inr (Some (0, a1), s1)"
        using True d mpos rp1 re1 by (simp add: BlockDecryptionStream_NextRead_def)
      from inv1 have lb1: "length (bds_buffer s1) = 4096" and w10: "0 \<le> bds_writePos s1"
        and fit1: "bds_readEnd s1 + bds_writePos s1 \<le> 4096"
        by (auto simp: BlockDecryptionStream_inv_def TWN_ARRAY_SIZE_def)
      have mr: "memread (bds_buffer s1) 0 a1 = Inr (BlockDecryptionStream_window s1)"
      proof -
        have "memread (bds_buffer s1) 0 a1 = Inr (take (nat a1) (drop (nat 0) (bds_buffer s1)))"
          using a10 fit1 w10 re1 lb1 by (intro memread_ok) simp_all
        then show ?thesis by (simp add: BlockDecryptionStream_window_def rp1 re1)
      qed
      define s2 where "s2 = s1\<lparr>bds_readPos := bds_readPos s1 + a1\<rparr>"
      have ar: "BlockDecryptionStream_AdvanceRead dbg a1 s1 = Inr (True, s2)"
        by (simp add: BlockDecryptionStream_AdvanceRead_def TWN_REQUIRE_def
            BlockDecryptionStream_GetAvailableRead_def rp1 re1 s2_def)
      have rec: "BlockDecryptionStream_drain dbg F acc s
        = BlockDecryptionStream_drain dbg F (acc @ BlockDecryptionStream_window s1) s2"
        by (simp add: unf nr mr ar)
      have inv2: "BlockDecryptionStream_inv s2"
        using inv1 a10 by (simp add: BlockDecryptionStream_inv_def s2_def rp1 re1)
      have win2: "BlockDecryptionStream_window s2 = []"
        by (simp add: BlockDecryptionStream_window_def s2_def rp1 re1)
      have pe2: "BlockDecryptionStream_pending s2 = drop (nat a1) P"
        using pe1 by (simp add: BlockDecryptionStream_pending_def s2_def)
      have f2: "bds_blockSize s2 = B" "bds_crypto s2 = bds_crypto s1"
        "bds_writePos s2 = bds_writePos s1"
        using B1 by (simp_all add: s2_def)
      have "\<exists>s' a. BlockDecryptionStream_drain dbg F (acc @ BlockDecryptionStream_window s1) s2
           = Inr ((acc @ BlockDecryptionStream_window s1) @ BlockDecryptionStream_window s2
                    @ fst (F (bds_crypto s2) (take (nat a) (BlockDecryptionStream_pending s2))), s')
         \<and> BlockDecryptionStream_inv s'
         \<and> bds_blockSize s' = bds_blockSize s2
         \<and> bds_crypto s' = snd (F (bds_crypto s2) (take (nat a) (BlockDecryptionStream_pending s2)))
         \<and> bds_source s' = []
         \<and> bds_readPos s' = 0 \<and> bds_readEnd s' = 0
         \<and> BlockDecryptionStream_pending s' = drop (nat a) (BlockDecryptionStream_pending s2)
         \<and> 0 \<le> a \<and> a mod bds_blockSize s2 = 0
         \<and> a \<le> int (length (BlockDecryptionStream_pending s2))
         \<and> bds_writePos s' < 2 * bds_blockSize s2
         \<and> (bds_blockSize s2 \<le> int (length (BlockDecryptionStream_pending s2))
              \<longrightarrow> bds_blockSize s2 \<le> bds_writePos s')"
      proof (rule "1.IH" [OF nr refl refl refl mr ar refl inv2])
        show "bds_writePos s2 < 2 * bds_blockSize s2" using w1 f2 by simp
        show "2 * bds_blockSize s2 \<le> 4096" using B2 f2 by (simp add: B_def)
        show "length_preserving F" by fact
        show "chunk_independent (bds_blockSize s2) F" using ci f2 by (simp add: B_def)
      qed
      then obtain s' a2 where
        r: "BlockDecryptionStream_drain dbg F (acc @ BlockDecryptionStream_window s1) s2
           = Inr ((acc @ BlockDecryptionStream_window s1)
                    @ fst (F (bds_crypto s1) (take (nat a2) (drop (nat a1) P))), s')"
        and inv': "BlockDecryptionStream_inv s'" and B': "bds_blockSize s' = B"
        and k': "bds_crypto s' = snd (F (bds_crypto s1) (take (nat a2) (drop (nat a1) P)))"
        and src': "bds_source s' = []" and rp': "bds_readPos s' = 0" and re': "bds_readEnd s' = 0"
        and pe': "BlockDecryptionStream_pending s' = drop (nat a2) (drop (nat a1) P)"
        and a20: "0 \<le> a2" and a2m: "a2 mod B = 0"
        and a2l: "a2 \<le> int (length (drop (nat a1) P))"
        and w': "bds_writePos s' < 2 * B"
        and big: "B \<le> int (length (drop (nat a1) P)) \<longrightarrow> B \<le> bds_writePos s'"
        unfolding win2 pe2 f2 by (elim exE conjE) (rule that, simp_all)
      obtain o2 k2 where F2: "F (bds_crypto s1) (take (nat a2) (drop (nat a1) P)) = (o2, k2)"
        by (cases "F (bds_crypto s1) (take (nat a2) (drop (nat a1) P))")
      have la1: "int (length (take (nat a1) P)) = a1"
        using a10 a1l by (rule length_take_nat)
      have al: "int (length (take (nat a1) P)) mod B = 0" using la1 a1m by simp
      have tk: "take (nat (a1 + a2)) P = take (nat a1) P @ take (nat a2) (drop (nat a1) P)"
        using a10 a20 by (simp add: nat_add_distrib take_add)
      have whole: "F (bds_crypto s) (take (nat (a1 + a2)) P)
          = (BlockDecryptionStream_window s1 @ o2, k2)"
        unfolding tk
        by (rule chunk_independent_append [OF ci [folded B_def] al F1 F2])
      have dr: "drop (nat a2) (drop (nat a1) P) = drop (nat (a1 + a2)) P"
        using a10 a20 by (simp add: nat_add_distrib add.commute)
      have am: "(a1 + a2) mod B = 0" using a1m a2m by (simp add: mod_add_eq [symmetric])
      have alen: "a1 + a2 \<le> int (length P)" using a2l a10 a1l by simp
      have bigP: "B \<le> int (length P) \<longrightarrow> B \<le> bds_writePos s'"
      proof
        assume bp: "B \<le> int (length P)"
        have "B \<le> int (length (drop (nat a1) P))"
        proof (cases "0 < a1")
          case True
          with pos have "B \<le> bds_writePos s1" by simp
          also have "\<dots> \<le> int (length (BlockDecryptionStream_pending s1))"
            by (rule length_pending_bds(1) [OF inv1])
          finally show ?thesis by (simp add: pe1)
        next
          case False
          with a10 have "a1 = 0" by simp
          with bp show ?thesis by simp
        qed
        with big show "B \<le> bds_writePos s'" by simp
      qed
      show ?thesis
        apply (rule exI [of _ s'], rule exI [of _ "a1 + a2"])
        unfolding rec r P_def [symmetric] B_def [symmetric] whole win0
        using inv' B' k' src' rp' re' pe' a10 a20 am alen w' bigP F2 dr
        by simp
    qed
  qed
qed

lemma block_exact:
  fixes B :: int
  assumes "B \<le> w" "w < 2 * B" "w mod B = 0"
  shows "w = B"
proof -
  from assms(3) obtain q where q: "w = B * q" by (auto simp: mod_eq_0_iff_dvd dvd_def)
  have B0: "0 < B" using assms(1,2) by linarith
  have "B * 1 \<le> B * q" using assms(1) q by simp
  then have q1: "1 \<le> q" using B0 by (simp only: mult_le_cancel_left_pos)
  have "B * q < B * 2" using assms(2) q by simp
  then have "q < 2" using B0 by (simp only: mult_less_cancel_left_pos)
  with q1 have "q = 1" by simp
  with q show ?thesis by simp
qed

lemma last_padding_bytes: "last (padding_bytes p) = word_of_int p"
  by (simp add: padding_bytes_def)

lemma padding_bytes_not_Nil: "padding_bytes p \<noteq> []"
  by (simp add: padding_bytes_def)

lemma uint_padding_byte:
  assumes "0 \<le> p" "p \<le> 255"
  shows "uint (word_of_int p :: byte) = p"
  using assms by (simp add: uint_word_of_int)

lemma read_all_spec:
  assumes inv: "BlockDecryptionStream_inv d"
    and fresh: "bds_writePos d = 0" "bds_readPos d = 0" "bds_readEnd d = 0"
    and B: "bds_blockSize d \<le> 255"
    and lp: "length_preserving D" and ci: "chunk_independent (bds_blockSize d) D"
    and dec: "fst (D (bds_crypto d) (concat (bds_source d)))
                = P @ padding_bytes (bds_blockSize d - int (length P) mod bds_blockSize d)"
  shows "\<exists>d'. BlockDecryptionStream_read_all dbg D d = Inr (P, d')"
proof -
  define B where "B = bds_blockSize d"
  define W where "W = concat (bds_source d)"
  define p where "p = B - int (length P) mod B"
  from inv have B0: "0 < B" by (auto simp: BlockDecryptionStream_inv_def B_def)
  have r: "0 \<le> int (length P) mod B" "int (length P) mod B < B"
    using B0 by simp_all
  have p1: "1 \<le> p" "p \<le> B" using r by (simp_all add: p_def)
  have lpad: "int (length (padding_bytes p)) = p" using p1(1) by (rule length_padding_bytes)
  have pe: "BlockDecryptionStream_pending d = W"
    using fresh by (simp add: BlockDecryptionStream_pending_def W_def)
  have win: "BlockDecryptionStream_window d = []"
    using fresh by (simp add: BlockDecryptionStream_window_def)
  have dec': "fst (D (bds_crypto d) W) = P @ padding_bytes p"
    using dec by (simp add: W_def p_def B_def)
  have lW: "int (length W) = int (length P) + p"
  proof -
    have "length (fst (D (bds_crypto d) W)) = length W"
      using lp by (simp add: length_preserving_def)
    then show ?thesis using lpad by (simp add: dec')
  qed
  have Wm: "int (length W) mod B = 0"
  proof -
    have "int (length P) + p = B * (int (length P) div B + 1)"
      using mult_div_mod_eq [of B "int (length P)"] by (simp add: p_def algebra_simps)
    then show ?thesis by (simp add: lW)
  qed
  have "int (length P) mod B \<le> int (length P)"
    using B0 by (simp add: zmod_le_nonneg_dividend)
  then have WB: "B \<le> int (length W)" using lW by (simp add: p_def)
  from drain_spec [OF inv, of D dbg "[]"] fresh B lp ci B0
  obtain s1 a where
    r1: "BlockDecryptionStream_drain dbg D [] d = Inr (fst (D (bds_crypto d) (take (nat a) W)), s1)"
    and inv1: "BlockDecryptionStream_inv s1" and B1: "bds_blockSize s1 = B"
    and k1: "bds_crypto s1 = snd (D (bds_crypto d) (take (nat a) W))"
    and src1: "bds_source s1 = []" and rp1: "bds_readPos s1 = 0" and re1: "bds_readEnd s1 = 0"
    and pe1: "BlockDecryptionStream_pending s1 = drop (nat a) W"
    and a0: "0 \<le> a" and am: "a mod B = 0" and al: "a \<le> int (length W)"
    and w1: "bds_writePos s1 < 2 * B" and wB: "B \<le> bds_writePos s1"
    unfolding pe win using WB by (auto simp: B_def)
  obtain out1 where o1: "D (bds_crypto d) (take (nat a) W) = (out1, bds_crypto s1)"
    using k1 by (cases "D (bds_crypto d) (take (nat a) W)") simp
  have lw1: "bds_writePos s1 = int (length W) - a"
    using length_pending_bds(2) [OF inv1 src1] pe1 a0 al by simp
  have "bds_writePos s1 mod B = 0"
    using Wm am by (simp add: lw1 mod_diff_eq [symmetric])
  with wB w1 have wq: "bds_writePos s1 = B" by (rule block_exact)
  have tk1: "take (nat (bds_writePos s1)) (bds_encrypedBuffer s1) = drop (nat a) W"
    using pe1 src1 by (simp add: BlockDecryptionStream_pending_def)
  obtain outF kF where FF: "D (bds_crypto s1) (drop (nat a) W) = (outF, kF)"
    by (cases "D (bds_crypto s1) (drop (nat a) W)")
  have la: "int (length (take (nat a) W)) = a" using a0 al by (rule length_take_nat)
  have "D (bds_crypto d) (take (nat a) W @ drop (nat a) W) = (out1 @ outF, kF)"
    using la am by (intro chunk_independent_append [OF ci [folded B_def] _ o1 FF]) simp
  then have cat: "out1 @ outF = P @ padding_bytes p"
    using dec' by simp
  have lo1: "int (length out1) = a" using length_preservingD [OF lp o1] la by simp
  have loF: "int (length outF) = B"
    using length_preservingD [OF lp FF] lw1 wq a0 al by simp
  have neF: "outF \<noteq> []" using loF B0 by auto
  have lastF: "last outF = word_of_int p"
  proof -
    have "last (out1 @ outF) = last (P @ padding_bytes p)" by (simp only: cat)
    then show ?thesis
      using neF padding_bytes_not_Nil [of p] by (simp add: last_padding_bytes)
  qed
  have up: "uint (last outF) = p"
    unfolding lastF using p1 B by (intro uint_padding_byte) (simp_all add: B_def)
  define s2 where "s2 = s1\<lparr>bds_crypto := kF,
                  bds_buffer := take (nat (bds_readEnd s1)) (bds_buffer s1) @ outF
                      @ drop (nat (bds_readEnd s1) + length outF) (bds_buffer s1),
                  bds_readEnd := bds_readEnd s1 + int (length outF) - uint (last outF),
                  bds_writePos := 0\<rparr>"
  have fl: "BlockDecryptionStream_Flush dbg D s1 = Inr s2"
    using BlockDecryptionStream_Flush_eq [OF inv1 lp _ FF [folded tk1], of dbg] neF up p1 wq B1
    by (simp add: s2_def)
  from inv1 have lb1: "length (bds_buffer s1) = 4096" "length (bds_encrypedBuffer s1) = 4096"
    by (auto simp: BlockDecryptionStream_inv_def)
  have B4: "B \<le> 4096" using B by (simp add: B_def)
  have inv2: "BlockDecryptionStream_inv s2"
    using inv1 re1 rp1 loF up p1 lb1 B4
    by (simp add: BlockDecryptionStream_inv_def s2_def TWN_ARRAY_SIZE_def)
  have "nat (B - p) \<le> length outF" using loF p1 by linarith
  then have win2: "BlockDecryptionStream_window s2 = take (nat (B - p)) outF"
    using re1 rp1 loF up by (simp add: BlockDecryptionStream_window_def s2_def)
  have pe2: "BlockDecryptionStream_pending s2 = []"
    using src1 by (simp add: BlockDecryptionStream_pending_def s2_def)
  have f2: "bds_blockSize s2 = B" "bds_writePos s2 = 0" "bds_crypto s2 = kF"
    using B1 by (simp_all add: s2_def)
  have nilF: "D kF [] = ([], kF)" by (rule chunk_independent_Nil [OF ci])
  from drain_spec [OF inv2, of D dbg out1] f2 B B0 lp ci
  obtain s3 where
    r3: "BlockDecryptionStream_drain dbg D out1 s2 = Inr (out1 @ take (nat (B - p)) outF, s3)"
    unfolding win2 pe2 by (auto simp: B_def nilF)
  have fin: "out1 @ take (nat (B - p)) outF = P"
  proof -
    have "length out1 + nat (B - p) = length P"
    proof -
      have "int (length (out1 @ outF)) = int (length (P @ padding_bytes p))"
        by (simp only: cat)
      then have "int (length out1) + B = int (length P) + p"
        using loF lpad by simp
      then show ?thesis using p1 by linarith
    qed
    then have "take (length P) (out1 @ outF) = out1 @ take (nat (B - p)) outF"
      by (simp add: take_append) (metis add_diff_cancel_left' le_add1 take_all)
    moreover have "take (length P) (out1 @ outF) = P" by (simp add: cat)
    ultimately show ?thesis by simp
  qed
  show ?thesis
    by (rule exI [of _ s3]) (simp add: BlockDecryptionStream_read_all_def r1 o1 fl r3 fin)
qed

text \<open>
  Claim C1. Take a pair of transforms that undo each other, and a block size from 1 to
  255, set by \<^verbatim>\<open>Init\<close> from the key size (the padding length is stored in one byte). Write
  any plaintext, cut into any chunks that fit the span \<^verbatim>\<open>NextWrite\<close> offers, through a
  freshly constructed block encryptor and flush it once: this succeeds. Hand the
  ciphertext, cut into any spans, to a freshly constructed block decryptor, drain it
  until \<^verbatim>\<open>NextRead\<close> fails, flush it and drain it again: this returns exactly the
  plaintext. The plaintext may be empty, shorter than a block, or any number of blocks.
\<close>

theorem round_trip:
  assumes cp: "cipher_pair B E ke D kd"
    and B: "0 < B" "B \<le> 255" and ks: "uint keySize = B"
    and Ie: "I keySize True False k0 = (oke, ke)"
    and Id: "J keySize False False k1 = (okd, kd)"
    and fit: "\<forall>c \<in> set chunks. int (length c) + B \<le> 4096"
  shows "\<exists>e. BlockEncryptionStream_write_all dbg E Copy_to_memory chunks
                 (snd (BlockEncryptionStream_Init I keySize
                         (BlockEncryptionStream_ctor [] k0 j1 j2))) = Inr e
          \<and> (\<forall>src. concat src = bes_dest e \<longrightarrow>
                (\<exists>d. BlockDecryptionStream_read_all dbg' D
                        (snd (BlockDecryptionStream_Init J keySize
                                (BlockDecryptionStream_ctor src k1 j3 j4)))
                      = Inr (concat chunks, d)))"
proof -
  from cp have lpE: "length_preserving E" and lpD: "length_preserving D"
    and ciE: "chunk_independent B E" and ciD: "chunk_independent B D"
    and inv: "inverse_transforms B E ke D kd"
    by (simp_all add: cipher_pair_def)
  define P where "P = concat chunks"
  define p where "p = B - int (length P) mod B"
  have sc: "static_cast_int keySize = B"
    using static_cast_int_small [of keySize] ks B by simp
  define e0 where "e0 = snd (BlockEncryptionStream_Init I keySize
                         (BlockEncryptionStream_ctor ([] :: byte list) k0 j1 j2))"
  have e0: "bes_blockSize e0 = B" "bes_writePos e0 = 0" "bes_crypto e0 = ke" "bes_dest e0 = []"
    "length (bes_buffer e0) = 4096" "length (bes_encrypedBuffer e0) = 4096"
    by (simp_all add: e0_def BlockEncryptionStream_Init_def BlockEncryptionStream_ctor_def
        Let_def Ie sc)
  have inve: "BlockEncryptionStream_inv e0"
    using e0 B by (simp add: BlockEncryptionStream_inv_def TWN_ARRAY_SIZE_def)
  from write_all_to_memory [OF inve e0(2), of chunks E dbg] e0 B fit lpE ciE
  obtain e where w: "BlockEncryptionStream_write_all dbg E Copy_to_memory chunks e0 = Inr e"
    and de: "bes_dest e = fst (E ke (P @ padding_bytes p))"
    by (auto simp: P_def p_def)
  have "int (length (P @ padding_bytes p)) mod B = 0"
  proof -
    have "1 \<le> p" unfolding p_def using pos_mod_bound [OF B(1), of "int (length P)"] by linarith
    then have "int (length (P @ padding_bytes p)) = int (length P) + p"
      using length_padding_bytes [of p] by simp
    also have "\<dots> = B * (int (length P) div B + 1)"
      using mult_div_mod_eq [of B "int (length P)"] by (simp add: p_def algebra_simps)
    finally show ?thesis by simp
  qed
  with inv have rt: "fst (D kd (fst (E ke (P @ padding_bytes p)))) = P @ padding_bytes p"
    by (simp add: inverse_transforms_def)
  have "\<forall>src. concat src = bes_dest e \<longrightarrow>
           (\<exists>d. BlockDecryptionStream_read_all dbg' D
                        (snd (BlockDecryptionStream_Init J keySize
                                (BlockDecryptionStream_ctor src k1 j3 j4)))
                      = Inr (P, d))"
  proof (intro allI impI)
    fix src
    assume src: "concat src = bes_dest e"
    define d0 where "d0 = snd (BlockDecryptionStream_Init J keySize
                                (BlockDecryptionStream_ctor src k1 j3 j4))"
    have d0: "bds_blockSize d0 = B" "bds_writePos d0 = 0" "bds_readPos d0 = 0"
      "bds_readEnd d0 = 0" "bds_crypto d0 = kd" "bds_source d0 = src"
      "length (bds_buffer d0) = 4096" "length (bds_encrypedBuffer d0) = 4096"
      by (simp_all add: d0_def BlockDecryptionStream_Init_def BlockDecryptionStream_ctor_def
          Let_def Id sc)
    have invd: "BlockDecryptionStream_inv d0"
      using d0 B by (simp add: BlockDecryptionStream_inv_def TWN_ARRAY_SIZE_def)
    have "\<exists>d'. BlockDecryptionStream_read_all dbg' D d0 = Inr (P, d')"
    proof (rule read_all_spec [OF invd d0(2,3,4) _ lpD])
      show "bds_blockSize d0 \<le> 255" using B d0 by simp
      show "chunk_independent (bds_blockSize d0) D" using ciD d0 by simp
      show "fst (D (bds_crypto d0) (concat (bds_source d0)))
          = P @ padding_bytes (bds_blockSize d0 - int (length P) mod bds_blockSize d0)"
        using rt by (simp add: d0 src de p_def)
    qed
    then show "\<exists>d. BlockDecryptionStream_read_all dbg' D
                        (snd (BlockDecryptionStream_Init J keySize
                                (BlockDecryptionStream_ctor src k1 j3 j4)))
                      = Inr (P, d)" by (simp only: d0_def)
  qed
  with w show ?thesis
    unfolding e0_def P_def by blast
qed

lemma cipher_pair_add_sub: "cipher_pair B add_cipher k sub_cipher k"
  by (simp add: cipher_pair_def length_preserving_def chunk_independent_def
      inverse_transforms_def add_cipher_def sub_cipher_def o_def)

theorem round_trip_witness:
  "\<exists>e. BlockEncryptionStream_write_all True add_cipher Copy_to_memory [[1, 2], [3, 4, 5]]
          (snd (BlockEncryptionStream_Init (\<lambda>n e m k. (True, 7)) 4
                  (BlockEncryptionStream_ctor [] 0 (\<lambda>i. 0) (\<lambda>i. 0)))) = Inr e
     \<and> (\<forall>src. concat src = bes_dest e \<longrightarrow>
           (\<exists>d. BlockDecryptionStream_read_all True sub_cipher
                   (snd (BlockDecryptionStream_Init (\<lambda>n e m k. (True, 7)) 4
                           (BlockDecryptionStream_ctor src 0 (\<lambda>i. 0) (\<lambda>i. 0))))
                 = Inr (concat [[1, 2], [3, 4, 5]], d)))"
  using round_trip [of 4 add_cipher 7 sub_cipher 7 4 "\<lambda>n e m k. (True, 7)" 0 True
      "\<lambda>n e m k. (True, 7)" 0 True "[[1, 2], [3, 4, 5]]" True "\<lambda>i. 0" "\<lambda>i. 0" True
      "\<lambda>i. 0" "\<lambda>i. 0"]
    cipher_pair_add_sub [of 4 7]
  by simp

section \<open>The window bound and the cursor invariant\<close>

text \<open>
  The invariants \<open>DecryptionStream_inv\<close>, \<open>BlockEncryptionStream_inv\<close> and
  \<open>BlockDecryptionStream_inv\<close> hold of every adapter as constructed (the block adapters
  after \<^verbatim>\<open>Init\<close> with a positive block size). The lemmas below show which operations
  keep them and stay inside the two arrays, for every transform that returns as many
  bytes as it is given and every count that is a number of bytes consumed or produced.
\<close>

lemma in_window_Inr [simp]: "in_window P (Inr s) = P s"
  by (simp add: in_window_def)

lemma state_of_Inr [simp]: "state_of (Inr (x, s)) = Inr s"
  by (simp add: state_of_def)

lemma state_of_Inl [simp]: "state_of (Inl e) = Inl e"
  by (simp add: state_of_def)

lemma DecryptionStream_AdvanceRead_safe:
  assumes "DecryptionStream_inv s" "0 \<le> bytes"
  shows "in_window DecryptionStream_inv (state_of (DecryptionStream_AdvanceRead dbg bytes s))"
  using assms
  by (auto simp: DecryptionStream_AdvanceRead_def TWN_REQUIRE_def DecryptionStream_inv_def
      DecryptionStream_GetAvailableRead_def in_window_def)

lemma BlockDecryptionStream_AdvanceRead_safe:
  assumes "BlockDecryptionStream_inv s" "0 \<le> bytes"
  shows "in_window BlockDecryptionStream_inv
           (state_of (BlockDecryptionStream_AdvanceRead dbg bytes s))"
  using assms
  by (auto simp: BlockDecryptionStream_AdvanceRead_def TWN_REQUIRE_def
      BlockDecryptionStream_inv_def BlockDecryptionStream_GetAvailableRead_def in_window_def)

lemma static_cast_int_length:
  assumes "int n < 2 ^ 31"
  shows "static_cast_int (of_nat n) = int n"
proof -
  have "uint (of_nat n :: 64 word) = int n"
    using assms by (simp add: uint_nat unat_of_nat take_bit_nat_eq_self)
  then show ?thesis using static_cast_int_small [of "of_nat n"] assms by simp
qed

lemma memcpy_ok:
  assumes "0 \<le> n" "n \<le> int (length src)" "n \<le> int (length dst)" "n < 2 ^ 64"
  shows "memcpy dst src n = Inr (take (nat n) src @ drop (nat n) dst)"
proof -
  have "size_t_of_int n = n"
    unfolding size_t_of_int_def using assms(1,4) by (rule mod_pos_pos_trivial)
  moreover have "length (take (nat n) src) = nat n" using assms(1,2) by simp
  ultimately show ?thesis using assms(1-3)
    by (simp add: memcpy_def memread_def memwrite_def)
qed

lemma DecryptionStream_Decrypt_safe:
  assumes inv: "DecryptionStream_inv s" and lp: "length_preserving F"
    and fit: "spans_fit_int (ds_source s)"
  shows "\<exists>ok s'. DecryptionStream_Decrypt F s = Inr (ok, s') \<and> DecryptionStream_inv s'"
proof -
  from inv have lb: "length (ds_buffer s) = 4096"
    by (simp add: DecryptionStream_inv_def)
  show ?thesis
  proof (cases "ReadStream_NextRead (ds_source s)")
    case None
    then have "DecryptionStream_Decrypt F s = Inr (False, s\<lparr>ds_readPos := 0, ds_readEnd := 0\<rparr>)"
      by (simp add: DecryptionStream_Decrypt_def)
    moreover have "DecryptionStream_inv (s\<lparr>ds_readPos := 0, ds_readEnd := 0\<rparr>)"
      using lb by (simp add: DecryptionStream_inv_def TWN_ARRAY_SIZE_def)
    ultimately show ?thesis by blast
  next
    case (Some buffer)
    have bl: "int (length buffer) < 2 ^ 31"
      using Some fit
      by (cases "ds_source s") (simp_all add: ReadStream_NextRead_def spans_fit_int_def)
    define len where "len = min 4096 (int (length buffer))"
    have cast: "min (TWN_ARRAY_SIZE (ds_buffer s)) (static_cast_int (of_nat (length buffer)))
        = len"
      using static_cast_int_length [OF bl] lb by (simp add: len_def TWN_ARRAY_SIZE_def)
    have l0: "0 \<le> len" "len \<le> 4096" "len \<le> int (length buffer)" by (simp_all add: len_def)
    define b1 where "b1 = take (nat len) buffer @ drop (nat len) (ds_buffer s)"
    have mw: "memcpy (ds_buffer s) buffer len = Inr b1"
      unfolding b1_def using l0 lb by (intro memcpy_ok) simp_all
    have lb1: "length b1 = 4096" using l0 lb by (simp add: b1_def)
    obtain out k' where F: "F (ds_crypto s) (take (nat len) b1) = (out, k')"
      by (cases "F (ds_crypto s) (take (nat len) b1)")
    have lout: "int (length out) = len"
      using length_preservingD [OF lp F] length_take_nat(2) [of len b1] l0 lb1 by simp
    define b2 where "b2 = take (nat 0) b1 @ out @ drop (nat 0 + length out) b1"
    have ci: "Cipher F (ds_crypto s) b1 b1 0 len = Inr (int (length out), b2, k')"
      unfolding b2_def using F l0 lb1 lout by (intro Cipher_eq) simp_all
    have lb2: "length b2 = 4096" using lout l0 lb1 by (simp add: b2_def)
    have "DecryptionStream_Decrypt F s
        = Inr (True, s\<lparr>ds_readPos := 0, ds_readEnd := 0,
                       ds_source := ReadStream_AdvanceRead len (ds_source s),
                       ds_crypto := k', ds_buffer := b2, ds_readEnd := int (length out)\<rparr>)"
      using Some
      by (simp add: DecryptionStream_Decrypt_def Let_def cast mw ci)
    moreover have "DecryptionStream_inv (s\<lparr>ds_readPos := 0, ds_readEnd := 0,
                       ds_source := ReadStream_AdvanceRead len (ds_source s),
                       ds_crypto := k', ds_buffer := b2, ds_readEnd := int (length out)\<rparr>)"
      using lb2 lout l0 by (simp add: DecryptionStream_inv_def TWN_ARRAY_SIZE_def)
    ultimately show ?thesis by blast
  qed
qed

lemma DecryptionStream_NextRead_safe:
  assumes inv: "DecryptionStream_inv s" and lp: "length_preserving F"
    and fit: "spans_fit_int (ds_source s)"
  shows "in_window DecryptionStream_inv (state_of (DecryptionStream_NextRead F s))"
proof (cases "DecryptionStream_GetAvailableRead s = 0")
  case True
  from DecryptionStream_Decrypt_safe [OF inv lp fit]
  obtain ok s' where "DecryptionStream_Decrypt F s = Inr (ok, s')" "DecryptionStream_inv s'"
    by blast
  then show ?thesis using True
    by (simp add: DecryptionStream_NextRead_def)
next
  case False
  then show ?thesis using inv
    by (simp add: DecryptionStream_NextRead_def)
qed

lemma BlockEncryptionStream_AdvanceWrite_safe:
  assumes inv: "BlockEncryptionStream_inv s" and lp: "length_preserving F"
    and n: "0 \<le> bytes" "bytes + bes_writePos s \<le> 4096"
  shows "\<exists>ok s'. BlockEncryptionStream_AdvanceWrite F Copy bytes s = Inr (ok, s')
           \<and> BlockEncryptionStream_inv s'"
proof -
  from inv have B0: "0 < bes_blockSize s" and lb: "length (bes_buffer s) = 4096"
    and le: "length (bes_encrypedBuffer s) = 4096" and w0: "0 \<le> bes_writePos s"
    by (auto simp: BlockEncryptionStream_inv_def)
  define total where "total = bytes + bes_writePos s"
  show ?thesis
  proof (cases "total < bes_blockSize s")
    case True
    then have "BlockEncryptionStream_AdvanceWrite F Copy bytes s
        = Inr (True, s\<lparr>bes_writePos := bes_writePos s + bytes\<rparr>)"
      using AdvanceWrite_buffered [of bytes s F Copy] by (simp add: total_def)
    moreover have "BlockEncryptionStream_inv (s\<lparr>bes_writePos := bes_writePos s + bytes\<rparr>)"
      using inv n w0 by (simp add: BlockEncryptionStream_inv_def TWN_ARRAY_SIZE_def)
    ultimately show ?thesis by blast
  next
    case False
    define a where "a = total - total mod bes_blockSize s"
    obtain out k' where F: "F (bes_crypto s) (take (nat a) (bes_buffer s)) = (out, k')"
      by (cases "F (bes_crypto s) (take (nat a) (bes_buffer s))")
    obtain ok d' where C: "Copy out (bes_dest s) = (ok, d')" by (cases "Copy out (bes_dest s)")
    have t0: "0 \<le> total" using n w0 by (simp add: total_def)
    have r: "0 \<le> total mod bes_blockSize s" "total mod bes_blockSize s \<le> total"
      using B0 t0 by (simp_all add: zmod_le_nonneg_dividend)
    have "int (length (take (nat a) (bes_buffer s))) = a"
      using r n lb by (intro length_take_nat) (simp_all add: a_def total_def)
    then have lout: "int (length out) = a"
      using length_preservingD [OF lp F] by simp
    have run: "BlockEncryptionStream_AdvanceWrite F Copy bytes s
       = Inr (ok, s\<lparr>bes_dest := d', bes_crypto := k',
                    bes_buffer :=
                      take (nat (total mod bes_blockSize s)) (drop (nat a) (bes_buffer s))
                      @ drop (nat (total mod bes_blockSize s)) (bes_buffer s),
                    bes_encrypedBuffer := out @ drop (length out) (bes_encrypedBuffer s),
                    bes_writePos := total mod bes_blockSize s\<rparr>)"
      using AdvanceWrite_transform [of s bytes F out k' Copy ok d'] B0 False n lb le lp F C
      by (simp add: total_def a_def TWN_ARRAY_SIZE_def)
    have l1: "length (take (nat (total mod bes_blockSize s)) (drop (nat a) (bes_buffer s))
                      @ drop (nat (total mod bes_blockSize s)) (bes_buffer s)) = 4096"
    proof -
      have "nat (total mod bes_blockSize s) \<le> length (drop (nat a) (bes_buffer s))"
        using r n lb by (simp add: a_def total_def)
      then show ?thesis using r n lb by (simp add: total_def)
    qed
    have l2: "length (out @ drop (length out) (bes_encrypedBuffer s)) = 4096"
      using lout r n le by (simp add: a_def total_def)
    have "BlockEncryptionStream_inv (s\<lparr>bes_dest := d', bes_crypto := k',
                    bes_buffer :=
                      take (nat (total mod bes_blockSize s)) (drop (nat a) (bes_buffer s))
                      @ drop (nat (total mod bes_blockSize s)) (bes_buffer s),
                    bes_encrypedBuffer := out @ drop (length out) (bes_encrypedBuffer s),
                    bes_writePos := total mod bes_blockSize s\<rparr>)"
      using inv r n l1 l2
      by (simp add: BlockEncryptionStream_inv_def TWN_ARRAY_SIZE_def total_def)
    with run show ?thesis by blast
  qed
qed

lemma BlockEncryptionStream_Flush_safe:
  assumes inv: "BlockEncryptionStream_inv s" and lp: "length_preserving F"
  shows "in_window BlockEncryptionStream_inv (BlockEncryptionStream_Flush dbg F Copy s)"
proof -
  define B where "B = bes_blockSize s"
  define w where "w = bes_writePos s"
  define p where "p = B - w mod B"
  from inv have B0: "0 < B" and lb: "length (bes_buffer s) = 4096"
    and le: "length (bes_encrypedBuffer s) = 4096" and w0: "0 \<le> w" and w1: "w \<le> 4096"
    by (auto simp: BlockEncryptionStream_inv_def B_def w_def TWN_ARRAY_SIZE_def)
  have r: "0 \<le> w mod B" "w mod B < B" "w mod B \<le> w"
    using B0 w0 by (simp_all add: zmod_le_nonneg_dividend)
  have p1: "1 \<le> p" using r by (simp add: p_def)
  note pad = Pad_eq [OF B0 w0, of "TWN_ARRAY_SIZE (bes_buffer s)" "bes_buffer s", folded p_def]
  show ?thesis
  proof (cases "w + p < 4096")
    case False
    then have "BlockEncryptionStream_Flush dbg F Copy s = Inl PaddingNoSpace"
      using pad lb
      by (simp add: BlockEncryptionStream_Flush_def BlockEncryptionStream_GetAvailableRead_def
          TWN_ARRAY_SIZE_def B_def [symmetric] w_def [symmetric])
    then show ?thesis by (simp add: in_window_def)
  next
    case True
    define b1 where "b1 = take (nat w) (bes_buffer s) @ replicate (nat (p - 1)) 0
                  @ [word_of_int p] @ drop (nat (w + p)) (bes_buffer s)"
    have pd: "BlockEncryptionStream_Pad B (bes_buffer s) (TWN_ARRAY_SIZE (bes_buffer s)) w
        = Inr (p, b1)"
      using pad True lb by (simp add: TWN_ARRAY_SIZE_def b1_def)
    have lb1: "length b1 = 4096"
    proof -
      have "length (take (nat w) (bes_buffer s)) = nat w"
        using w0 w1 lb by (intro length_take_nat) simp_all
      moreover have "length (drop (nat (w + p)) (bes_buffer s)) = 4096 - nat (w + p)"
        using lb by simp
      moreover have "nat w + (nat (p - 1) + 1) + (4096 - nat (w + p)) = 4096"
        using w0 p1 True by linarith
      ultimately show ?thesis by (simp add: b1_def)
    qed
    have m0: "(w + p) mod B = 0"
    proof -
      have "w + p = B * (w div B + 1)"
        using mult_div_mod_eq [of B w] by (simp add: p_def algebra_simps)
      then show ?thesis by simp
    qed
    have rq: "c_rem (w + p) B = Inr 0"
      using c_rem_pos [of "w + p" B] B0 w0 p1 m0 by simp
    have inv1: "BlockEncryptionStream_inv (s\<lparr>bes_buffer := b1\<rparr>)"
      using inv lb1 by (simp add: BlockEncryptionStream_inv_def TWN_ARRAY_SIZE_def)
    from BlockEncryptionStream_AdvanceWrite_safe [OF inv1 lp, of p Copy] p1 True
    obtain ok s' where aw: "BlockEncryptionStream_AdvanceWrite F Copy p (s\<lparr>bes_buffer := b1\<rparr>)
        = Inr (ok, s')" and inv': "BlockEncryptionStream_inv s'"
      by (auto simp: w_def add.commute)
    have "BlockEncryptionStream_Flush dbg F Copy s = Inr s'"
      by (simp add: BlockEncryptionStream_Flush_def BlockEncryptionStream_GetAvailableRead_def
          B_def [symmetric] w_def [symmetric] pd rq TWN_REQUIRE_def aw)
    then show ?thesis using inv' by simp
  qed
qed

lemma Decrypt_loop_safe:
  "BlockDecryptionStream_inv s \<Longrightarrow> bds_readPos s = 0 \<Longrightarrow> bds_readEnd s = 0
   \<Longrightarrow> length_preserving F
   \<Longrightarrow> \<exists>m s'. BlockDecryptionStream_Decrypt_loop F n s = Inr (m, s')
         \<and> BlockDecryptionStream_inv s'"
proof (induction F n s rule: BlockDecryptionStream_Decrypt_loop.induct)
  case (1 F bytesRead s)
  note unf = BlockDecryptionStream_Decrypt_loop.simps [of F bytesRead s]
  define B where "B = bds_blockSize s"
  define w where "w = bds_writePos s"
  note inv = "1.prems"(1) and z = "1.prems"(2,3) and lp = "1.prems"(4)
  from inv have B0: "0 < B" and w0: "0 \<le> w" and le: "length (bds_encrypedBuffer s) = 4096"
    by (auto simp: BlockDecryptionStream_inv_def B_def w_def)
  have gaw: "BlockDecryptionStream_GetAvailableWrite s = 4096 - w"
    using le by (simp add: BlockDecryptionStream_GetAvailableWrite_def
        BlockDecryptionStream_GetUsedWrite_def TWN_ARRAY_SIZE_def w_def)
  show ?case
  proof (cases "BlockDecryptionStream_GetAvailableWrite s > 0
         \<and> BlockDecryptionStream_GetAvailableRead s < bds_blockSize s")
    case False
    have "BlockDecryptionStream_Decrypt_loop F bytesRead s = Inr (bytesRead, s)"
      by (subst unf) (simp only: False if_False)
    with inv show ?thesis by blast
  next
    case g: True
    show ?thesis
    proof (cases "ReadStream_NextRead (bds_source s)")
      case None
      have "BlockDecryptionStream_Decrypt_loop F bytesRead s = Inr (bytesRead, s)"
        using g None by (simp add: unf)
      with inv show ?thesis by blast
    next
      case (Some buffer)
      define len where "len = min (4096 - w) (int (length buffer))"
      define avail where "avail = w + len"
      define a1 where "a1 = bytesToRead B avail"
      have len0: "0 \<le> len" using g by (simp add: len_def gaw)
      have av0: "0 \<le> avail" using w0 len0 by (simp add: avail_def)
      note bf = bytesToRead_facts [OF B0 av0, folded a1_def]
      define ok where "ok = (if a1 = 0 then ([], bds_crypto s)
          else F (bds_crypto s) (take (nat a1) (BlockDecryptionStream_pending s)))"
      obtain out k' where ok: "ok = (out, k')" by (cases ok)
      have N: "a1 = 0 \<longrightarrow> (out, k') = ([], bds_crypto s)"
        using ok by (auto simp: ok_def)
      have F: "0 < a1 \<longrightarrow> F (bds_crypto s) (take (nat a1) (BlockDecryptionStream_pending s))
          = (out, k')"
        using ok by (auto simp: ok_def)
      from Decrypt_pass_step_gen [OF inv z lp conjunct1 [OF g] Some, of out k']
        N [unfolded a1_def avail_def len_def w_def B_def]
        F [unfolded a1_def avail_def len_def w_def B_def]
      obtain s1 where p: "BlockDecryptionStream_Decrypt_pass F buffer s = Inr (len, s1)"
        and inv1: "BlockDecryptionStream_inv s1" and B1: "bds_blockSize s1 = B"
        and rp1: "bds_readPos s1 = 0" and re1: "bds_readEnd s1 = a1"
        unfolding a1_def avail_def len_def w_def B_def by blast
      have rec: "BlockDecryptionStream_Decrypt_loop F bytesRead s
          = BlockDecryptionStream_Decrypt_loop F (bytesRead + len) s1"
        using g Some p by (simp add: unf)
      show ?thesis
      proof (cases "0 < a1")
        case True
        have "BlockDecryptionStream_Decrypt_loop F (bytesRead + len) s1
            = Inr (bytesRead + len, s1)"
          using bf(6) [OF True] rp1 re1 B1
          by (simp add: BlockDecryptionStream_Decrypt_loop.simps [of F "bytesRead + len" s1]
              BlockDecryptionStream_GetAvailableRead_def)
        with rec inv1 show ?thesis by simp
      next
        case False
        with bf(1) have a0: "a1 = 0" by simp
        have "\<exists>m s'. BlockDecryptionStream_Decrypt_loop F (bytesRead + len) s1 = Inr (m, s')
           \<and> BlockDecryptionStream_inv s'"
        proof (rule "1.IH" [OF g Some p refl inv1 rp1])
          show "bds_readEnd s1 = 0" using re1 a0 by simp
          show "length_preserving F" by fact
        qed
        with rec show ?thesis by simp
      qed
    qed
  qed
qed

lemma BlockDecryptionStream_Decrypt_safe:
  assumes inv: "BlockDecryptionStream_inv s" and lp: "length_preserving F"
  shows "\<exists>ok s'. BlockDecryptionStream_Decrypt F s = Inr (ok, s')
           \<and> BlockDecryptionStream_inv s'"
proof -
  have i0: "BlockDecryptionStream_inv (s\<lparr>bds_readPos := 0, bds_readEnd := 0\<rparr>)"
    using inv by (simp add: BlockDecryptionStream_inv_def TWN_ARRAY_SIZE_def)
  from Decrypt_loop_safe [OF i0 _ _ lp, of 0]
  obtain m s' where "BlockDecryptionStream_Decrypt_loop F 0
      (s\<lparr>bds_readPos := 0, bds_readEnd := 0\<rparr>) = Inr (m, s')"
    and "BlockDecryptionStream_inv s'" by auto
  then show ?thesis by (simp add: BlockDecryptionStream_Decrypt_def)
qed

lemma BlockDecryptionStream_NextRead_safe:
  assumes inv: "BlockDecryptionStream_inv s" and lp: "length_preserving F"
  shows "in_window BlockDecryptionStream_inv (state_of (BlockDecryptionStream_NextRead F s))"
proof (cases "BlockDecryptionStream_GetAvailableRead s = 0")
  case True
  from BlockDecryptionStream_Decrypt_safe [OF inv lp]
  obtain ok s' where "BlockDecryptionStream_Decrypt F s = Inr (ok, s')"
    "BlockDecryptionStream_inv s'"
    by blast
  then show ?thesis using True
    by (simp add: BlockDecryptionStream_NextRead_def)
next
  case False
  then show ?thesis using inv
    by (simp add: BlockDecryptionStream_NextRead_def)
qed

lemma BlockDecryptionStream_Flush_safe:
  assumes inv: "BlockDecryptionStream_inv s" and lp: "length_preserving F"
    and al: "dbg \<or> bds_writePos s mod bds_blockSize s = 0"
  shows "in_window BlockDecryptionStream_inv (BlockDecryptionStream_Flush dbg F s)"
proof (cases "bds_writePos s mod bds_blockSize s = 0")
  case True
  from inv have B: "0 < bds_blockSize s" and w0: "0 \<le> bds_writePos s"
    and e0: "0 \<le> bds_readEnd s" and pe: "bds_readPos s \<le> bds_readEnd s"
    and lb: "length (bds_buffer s) = 4096"
    and fit: "bds_readEnd s + bds_writePos s \<le> 4096"
    and len: "length (bds_encrypedBuffer s) = 4096"
    by (auto simp: BlockDecryptionStream_inv_def TWN_ARRAY_SIZE_def)
  obtain out k' where
    F: "F (bds_crypto s) (take (nat (bds_writePos s)) (bds_encrypedBuffer s)) = (out, k')"
    by (cases "F (bds_crypto s) (take (nat (bds_writePos s)) (bds_encrypedBuffer s))")
  have lout: "int (length out) = bds_writePos s"
    using length_preservingD [OF lp F] w0 fit e0 len by simp
  note eq = BlockDecryptionStream_Flush_eq [OF inv lp _ F, of dbg]
  show ?thesis
  proof (cases "out = []")
    case True
    then show ?thesis using eq \<open>bds_writePos s mod bds_blockSize s = 0\<close> inv
      by (simp add: BlockDecryptionStream_inv_def TWN_ARRAY_SIZE_def)
  next
    case ne: False
    then have wpos: "0 < bds_writePos s" using lout by (cases out) simp_all
    have wB: "bds_blockSize s \<le> bds_writePos s"
    proof -
      have "bds_blockSize s dvd bds_writePos s" using True by presburger
      then show ?thesis using wpos B by (rule_tac zdvd_imp_le)
    qed
    show ?thesis
    proof (cases "uint (last out) \<le> bds_blockSize s")
      case False
      then show ?thesis using eq True ne by (simp add: in_window_def)
    next
      case pd: True
      have l2: "length (take (nat (bds_readEnd s)) (bds_buffer s) @ out
                      @ drop (nat (bds_readEnd s) + length out) (bds_buffer s)) = 4096"
        using lout e0 fit lb w0 by simp
      have u0: "0 \<le> uint (last out)" by simp
      have a1: "bds_readEnd s + int (length out) - uint (last out) \<le> 4096"
        using u0 fit lout by linarith
      have a2: "bds_readPos s \<le> bds_readEnd s + int (length out) - uint (last out)"
        using pd wB pe lout by linarith
      have run: "BlockDecryptionStream_Flush dbg F s
         = Inr (s\<lparr>bds_crypto := k',
                  bds_buffer := take (nat (bds_readEnd s)) (bds_buffer s) @ out
                      @ drop (nat (bds_readEnd s) + length out) (bds_buffer s),
                  bds_readEnd := bds_readEnd s + int (length out) - uint (last out),
                  bds_writePos := 0\<rparr>)"
        using eq True ne pd by simp
      show ?thesis unfolding run using inv l2 a1 a2
        by (simp add: BlockDecryptionStream_inv_def TWN_ARRAY_SIZE_def)
    qed
  qed
next
  case False
  with al have dbg by simp
  from inv have B: "0 < bds_blockSize s" and w0: "0 \<le> bds_writePos s"
    by (auto simp: BlockDecryptionStream_inv_def)
  have "BlockDecryptionStream_Flush dbg F s = Inl RequireFailed"
    using c_rem_pos [OF w0 B] False \<open>dbg\<close>
    by (simp add: BlockDecryptionStream_Flush_def BlockDecryptionStream_GetUsedWrite_def
        TWN_REQUIRE_def Let_def)
  then show ?thesis by (simp add: in_window_def)
qed

lemma BlockEncryptionStream_NextWrite_span:
  assumes "BlockEncryptionStream_inv e"
  shows "BlockEncryptionStream_NextWrite e = (True, (bes_writePos e, 4096 - bes_writePos e))"
proof -
  from assms have w: "0 \<le> bes_writePos e" "bes_writePos e \<le> 4096"
    and lb: "length (bes_buffer e) = 4096"
    by (auto simp: BlockEncryptionStream_inv_def TWN_ARRAY_SIZE_def)
  have "(4096 - bes_writePos e) mod 2 ^ 64 = 4096 - bes_writePos e"
    using w by (intro mod_pos_pos_trivial) simp_all
  then show ?thesis using lb
    by (simp add: BlockEncryptionStream_NextWrite_def BlockEncryptionStream_GetAvailableRead_def
        TWN_ARRAY_SIZE_def Let_def)
qed

lemma adapters_start_within_invariant:
  "DecryptionStream_inv (DecryptionStream_ctor source k j1)"
  "0 < uint keySize \<Longrightarrow> uint keySize < 2 ^ 31 \<Longrightarrow>
     BlockEncryptionStream_inv
       (snd (BlockEncryptionStream_Init I keySize (BlockEncryptionStream_ctor dest k j1 j2)))"
  "0 < uint keySize \<Longrightarrow> uint keySize < 2 ^ 31 \<Longrightarrow>
     BlockDecryptionStream_inv
       (snd (BlockDecryptionStream_Init I keySize (BlockDecryptionStream_ctor source k j1 j2)))"
  by (simp_all add: DecryptionStream_inv_def DecryptionStream_ctor_def TWN_ARRAY_SIZE_def
      BlockEncryptionStream_inv_def BlockEncryptionStream_Init_def BlockEncryptionStream_ctor_def
      BlockDecryptionStream_inv_def BlockDecryptionStream_Init_def BlockDecryptionStream_ctor_def
      Let_def static_cast_int_small split: prod.splits)
text \<open>
  What holds of the three adapters. The count of an \<^verbatim>\<open>Advance\<close> call is not negative,
  that of \<^verbatim>\<open>AdvanceWrite\<close> not beyond the span that \<^verbatim>\<open>NextWrite\<close> returns, and
  \<^verbatim>\<open>BlockDecryptionStream::Flush\<close> runs on a whole number of accumulated blocks or with
  a halting \<^verbatim>\<open>TWN_REQUIRE\<close>. For the stream decryptor the spans of the source have to be
  shorter than \<open>2^31\<close> bytes; the block adapters need no such bound.
\<close>

lemma window_bound_within_contract:
  assumes lp: "length_preserving F"
  shows "(DecryptionStream_inv d \<longrightarrow>
            0 \<le> ds_readPos d \<and> ds_readPos d \<le> ds_readEnd d \<and> ds_readEnd d \<le> 4096
          \<and> (spans_fit_int (ds_source d) \<longrightarrow>
               in_window DecryptionStream_inv (state_of (DecryptionStream_NextRead F d)))
          \<and> (0 \<le> n \<longrightarrow>
               in_window DecryptionStream_inv (state_of (DecryptionStream_AdvanceRead dbg n d))))
       \<and> (BlockEncryptionStream_inv e \<longrightarrow>
            0 \<le> bes_writePos e \<and> bes_writePos e \<le> 4096
          \<and> BlockEncryptionStream_NextWrite e = (True, (bes_writePos e, 4096 - bes_writePos e))
          \<and> (0 \<le> n \<and> n \<le> 4096 - bes_writePos e \<longrightarrow>
               in_window BlockEncryptionStream_inv
                 (state_of (BlockEncryptionStream_AdvanceWrite F Copy n e)))
          \<and> in_window BlockEncryptionStream_inv (BlockEncryptionStream_Flush dbg F Copy e))
       \<and> (BlockDecryptionStream_inv b \<longrightarrow>
            0 \<le> bds_readPos b \<and> bds_readPos b \<le> bds_readEnd b \<and> bds_readEnd b \<le> 4096
          \<and> 0 \<le> bds_writePos b \<and> bds_writePos b \<le> 4096
          \<and> in_window BlockDecryptionStream_inv (state_of (BlockDecryptionStream_NextRead F b))
          \<and> (0 \<le> n \<longrightarrow>
               in_window BlockDecryptionStream_inv
                 (state_of (BlockDecryptionStream_AdvanceRead dbg n b)))
          \<and> (dbg \<or> bds_writePos b mod bds_blockSize b = 0 \<longrightarrow>
               in_window BlockDecryptionStream_inv (BlockDecryptionStream_Flush dbg F b)))"
proof (intro conjI impI)
  assume i: "DecryptionStream_inv d"
  then show "0 \<le> ds_readPos d" "ds_readPos d \<le> ds_readEnd d" "ds_readEnd d \<le> 4096"
    by (simp_all add: DecryptionStream_inv_def TWN_ARRAY_SIZE_def)
  show "in_window DecryptionStream_inv (state_of (DecryptionStream_NextRead F d))"
    if "spans_fit_int (ds_source d)" by (rule DecryptionStream_NextRead_safe [OF i lp that])
  show "in_window DecryptionStream_inv (state_of (DecryptionStream_AdvanceRead dbg n d))"
    if "0 \<le> n" by (rule DecryptionStream_AdvanceRead_safe [OF i that])
next
  assume i: "BlockEncryptionStream_inv e"
  then show "0 \<le> bes_writePos e" "bes_writePos e \<le> 4096"
    by (simp_all add: BlockEncryptionStream_inv_def TWN_ARRAY_SIZE_def)
  show "BlockEncryptionStream_NextWrite e = (True, (bes_writePos e, 4096 - bes_writePos e))"
    by (rule BlockEncryptionStream_NextWrite_span [OF i])
  show "in_window BlockEncryptionStream_inv (BlockEncryptionStream_Flush dbg F Copy e)"
    by (rule BlockEncryptionStream_Flush_safe [OF i lp])
  show "in_window BlockEncryptionStream_inv
          (state_of (BlockEncryptionStream_AdvanceWrite F Copy n e))"
    if n: "0 \<le> n \<and> n \<le> 4096 - bes_writePos e"
  proof -
    from BlockEncryptionStream_AdvanceWrite_safe [OF i lp, of n Copy] n
    obtain ok s' where "BlockEncryptionStream_AdvanceWrite F Copy n e = Inr (ok, s')"
      "BlockEncryptionStream_inv s'" by auto
    then show ?thesis by simp
  qed
next
  assume i: "BlockDecryptionStream_inv b"
  then show "0 \<le> bds_readPos b" "bds_readPos b \<le> bds_readEnd b" "bds_readEnd b \<le> 4096"
    "0 \<le> bds_writePos b" "bds_writePos b \<le> 4096"
    by (simp_all add: BlockDecryptionStream_inv_def TWN_ARRAY_SIZE_def)
  show "in_window BlockDecryptionStream_inv (state_of (BlockDecryptionStream_NextRead F b))"
    by (rule BlockDecryptionStream_NextRead_safe [OF i lp])
  show "in_window BlockDecryptionStream_inv
          (state_of (BlockDecryptionStream_AdvanceRead dbg n b))"
    if "0 \<le> n" by (rule BlockDecryptionStream_AdvanceRead_safe [OF i that])
  show "in_window BlockDecryptionStream_inv (BlockDecryptionStream_Flush dbg F b)"
    if "dbg \<or> bds_writePos b mod bds_blockSize b = 0"
    by (rule BlockDecryptionStream_Flush_safe [OF i lp that])
qed

text \<open>
  Runs of every operation from adapters that obey the invariant: \<^verbatim>\<open>NextRead\<close> on an
  empty window calls \<^verbatim>\<open>Decrypt\<close>, and \<^verbatim>\<open>Flush\<close> of the block decryptor strips a trailer
  of two bytes.
\<close>

lemma window_bound_within_contract_example:
  "in_window DecryptionStream_inv (state_of (DecryptionStream_NextRead sub_cipher
      \<lparr>ds_source = [[5, 6, 7]], ds_crypto = 1, ds_buffer = replicate 4096 0,
       ds_readPos = 2, ds_readEnd = 2\<rparr>))
 \<and> DecryptionStream_NextRead sub_cipher
      \<lparr>ds_source = [[5, 6, 7]], ds_crypto = 1, ds_buffer = replicate 4096 0,
       ds_readPos = 2, ds_readEnd = 2\<rparr>
    = Inr (Some (0, 3),
           \<lparr>ds_source = [], ds_crypto = 1, ds_buffer = [4, 5, 6] @ replicate 4093 0,
            ds_readPos = 0, ds_readEnd = 3\<rparr>)
 \<and> in_window DecryptionStream_inv (state_of (DecryptionStream_AdvanceRead True 1
      \<lparr>ds_source = [], ds_crypto = (1 :: byte), ds_buffer = [4, 5, 6] @ replicate 4093 0,
       ds_readPos = 0, ds_readEnd = 3\<rparr>))
 \<and> in_window BlockEncryptionStream_inv (state_of (BlockEncryptionStream_AdvanceWrite sub_cipher
      Copy_to_memory 20
      \<lparr>bes_dest = [], bes_crypto = 1, bes_blockSize = 16,
       bes_buffer = replicate 4096 9, bes_encrypedBuffer = replicate 4096 0,
       bes_writePos = 5\<rparr>))
 \<and> in_window BlockEncryptionStream_inv (BlockEncryptionStream_Flush True sub_cipher
      Copy_to_memory
      \<lparr>bes_dest = [], bes_crypto = 1, bes_blockSize = 16,
       bes_buffer = replicate 4096 9, bes_encrypedBuffer = replicate 4096 0,
       bes_writePos = 5\<rparr>)
 \<and> in_window BlockDecryptionStream_inv (state_of (BlockDecryptionStream_NextRead sub_cipher
      \<lparr>bds_source = [replicate 32 5], bds_crypto = 1, bds_blockSize = 16,
       bds_buffer = replicate 4096 0, bds_encrypedBuffer = replicate 4096 0,
       bds_readPos = 0, bds_readEnd = 0, bds_writePos = 0\<rparr>))
 \<and> BlockDecryptionStream_NextRead sub_cipher
      \<lparr>bds_source = [replicate 32 5], bds_crypto = 1, bds_blockSize = 16,
       bds_buffer = replicate 4096 0, bds_encrypedBuffer = replicate 4096 0,
       bds_readPos = 0, bds_readEnd = 0, bds_writePos = 0\<rparr>
    = Inr (Some (0, 16),
           \<lparr>bds_source = [], bds_crypto = 1, bds_blockSize = 16,
            bds_buffer = replicate 16 4 @ replicate 4080 0,
            bds_encrypedBuffer = replicate 32 5 @ replicate 4064 0,
            bds_readPos = 0, bds_readEnd = 16, bds_writePos = 16\<rparr>)
 \<and> in_window BlockDecryptionStream_inv (state_of (BlockDecryptionStream_AdvanceRead True 16
      \<lparr>bds_source = [], bds_crypto = (1 :: byte), bds_blockSize = 16,
       bds_buffer = replicate 16 4 @ replicate 4080 0,
       bds_encrypedBuffer = replicate 32 5 @ replicate 4064 0,
       bds_readPos = 0, bds_readEnd = 16, bds_writePos = 16\<rparr>))
 \<and> in_window BlockDecryptionStream_inv (BlockDecryptionStream_Flush True sub_cipher
      \<lparr>bds_source = [], bds_crypto = 1, bds_blockSize = 16,
       bds_buffer = replicate 16 4 @ replicate 4080 0,
       bds_encrypedBuffer = replicate 15 5 @ [3] @ replicate 4080 0,
       bds_readPos = 16, bds_readEnd = 16, bds_writePos = 16\<rparr>)
 \<and> BlockDecryptionStream_Flush True sub_cipher
      \<lparr>bds_source = [], bds_crypto = 1, bds_blockSize = 16,
       bds_buffer = replicate 16 4 @ replicate 4080 0,
       bds_encrypedBuffer = replicate 15 5 @ [3] @ replicate 4080 0,
       bds_readPos = 16, bds_readEnd = 16, bds_writePos = 16\<rparr>
    = Inr \<lparr>bds_source = [], bds_crypto = 1, bds_blockSize = 16,
           bds_buffer = replicate 31 4 @ [2] @ replicate 4064 0,
           bds_encrypedBuffer = replicate 15 5 @ [3] @ replicate 4080 0,
           bds_readPos = 16, bds_readEnd = 30, bds_writePos = 0\<rparr>"
proof -
  note L = window_bound_within_contract [OF length_preserving_sub_cipher,
      where Copy = "Copy_to_memory :: byte list \<Rightarrow> byte list \<Rightarrow> bool \<times> byte list"
      and dbg = True]
  note invs = DecryptionStream_inv_def BlockEncryptionStream_inv_def
    BlockDecryptionStream_inv_def TWN_ARRAY_SIZE_def spans_fit_int_def
  have 1: "in_window DecryptionStream_inv (state_of (DecryptionStream_NextRead sub_cipher
      \<lparr>ds_source = [[5, 6, 7]], ds_crypto = 1, ds_buffer = replicate 4096 0,
       ds_readPos = 2, ds_readEnd = 2\<rparr>))"
    using L [where d = "\<lparr>ds_source = [[5, 6, 7]], ds_crypto = 1, ds_buffer = replicate 4096 0,
       ds_readPos = 2, ds_readEnd = 2\<rparr>"]
    by (simp add: invs)
  have 2: "in_window DecryptionStream_inv (state_of (DecryptionStream_AdvanceRead True 1
      \<lparr>ds_source = [], ds_crypto = (1 :: byte), ds_buffer = [4, 5, 6] @ replicate 4093 0,
       ds_readPos = 0, ds_readEnd = 3\<rparr>))"
    using L [where d = "\<lparr>ds_source = [], ds_crypto = 1,
       ds_buffer = [4, 5, 6] @ replicate 4093 0, ds_readPos = 0, ds_readEnd = 3\<rparr>" and n = 1]
    by (simp add: invs)
  have 3: "in_window BlockEncryptionStream_inv (state_of (BlockEncryptionStream_AdvanceWrite
      sub_cipher Copy_to_memory 20
      \<lparr>bes_dest = [], bes_crypto = 1, bes_blockSize = 16,
       bes_buffer = replicate 4096 9, bes_encrypedBuffer = replicate 4096 0,
       bes_writePos = 5\<rparr>))
   \<and> in_window BlockEncryptionStream_inv (BlockEncryptionStream_Flush True sub_cipher
      Copy_to_memory
      \<lparr>bes_dest = [], bes_crypto = 1, bes_blockSize = 16,
       bes_buffer = replicate 4096 9, bes_encrypedBuffer = replicate 4096 0,
       bes_writePos = 5\<rparr>)"
    using L [where e = "\<lparr>bes_dest = [], bes_crypto = 1, bes_blockSize = 16,
       bes_buffer = replicate 4096 9, bes_encrypedBuffer = replicate 4096 0,
       bes_writePos = 5\<rparr>" and n = 20]
    by (simp add: invs)
  have 4: "in_window BlockDecryptionStream_inv (state_of (BlockDecryptionStream_NextRead
      sub_cipher
      \<lparr>bds_source = [replicate 32 5], bds_crypto = 1, bds_blockSize = 16,
       bds_buffer = replicate 4096 0, bds_encrypedBuffer = replicate 4096 0,
       bds_readPos = 0, bds_readEnd = 0, bds_writePos = 0\<rparr>))"
    using L [where b = "\<lparr>bds_source = [replicate 32 5], bds_crypto = 1, bds_blockSize = 16,
       bds_buffer = replicate 4096 0, bds_encrypedBuffer = replicate 4096 0,
       bds_readPos = 0, bds_readEnd = 0, bds_writePos = 0\<rparr>"]
    by (simp add: invs)
  have 5: "in_window BlockDecryptionStream_inv (state_of (BlockDecryptionStream_AdvanceRead
      True 16
      \<lparr>bds_source = [], bds_crypto = (1 :: byte), bds_blockSize = 16,
       bds_buffer = replicate 16 4 @ replicate 4080 0,
       bds_encrypedBuffer = replicate 32 5 @ replicate 4064 0,
       bds_readPos = 0, bds_readEnd = 16, bds_writePos = 16\<rparr>))"
    using L [where b = "\<lparr>bds_source = [], bds_crypto = 1, bds_blockSize = 16,
       bds_buffer = replicate 16 4 @ replicate 4080 0,
       bds_encrypedBuffer = replicate 32 5 @ replicate 4064 0,
       bds_readPos = 0, bds_readEnd = 16, bds_writePos = 16\<rparr>" and n = 16]
    by (simp add: invs)
  have 6: "in_window BlockDecryptionStream_inv (BlockDecryptionStream_Flush True sub_cipher
      \<lparr>bds_source = [], bds_crypto = 1, bds_blockSize = 16,
       bds_buffer = replicate 16 4 @ replicate 4080 0,
       bds_encrypedBuffer = replicate 15 5 @ [3] @ replicate 4080 0,
       bds_readPos = 16, bds_readEnd = 16, bds_writePos = 16\<rparr>)"
    using L [where b = "\<lparr>bds_source = [], bds_crypto = 1, bds_blockSize = 16,
       bds_buffer = replicate 16 4 @ replicate 4080 0,
       bds_encrypedBuffer = replicate 15 5 @ [3] @ replicate 4080 0,
       bds_readPos = 16, bds_readEnd = 16, bds_writePos = 16\<rparr>"]
    by (simp add: invs)
  have 7: "DecryptionStream_NextRead sub_cipher
      \<lparr>ds_source = [[5, 6, 7]], ds_crypto = 1, ds_buffer = replicate 4096 0,
       ds_readPos = 2, ds_readEnd = 2\<rparr>
    = Inr (Some (0, 3),
           \<lparr>ds_source = [], ds_crypto = 1, ds_buffer = [4, 5, 6] @ replicate 4093 0,
            ds_readPos = 0, ds_readEnd = 3\<rparr>)"
    by (simp add: TWN_ARRAY_SIZE_def DecryptionStream_NextRead_def
      DecryptionStream_GetAvailableRead_def DecryptionStream_Decrypt_def
      ReadStream_NextRead_def ReadStream_AdvanceRead_def static_cast_int_def memcpy_def
      size_t_of_int_def memread_def memwrite_def Cipher_def sub_cipher_def)
  have 8: "BlockDecryptionStream_NextRead sub_cipher
      \<lparr>bds_source = [replicate 32 5], bds_crypto = 1, bds_blockSize = 16,
       bds_buffer = replicate 4096 0, bds_encrypedBuffer = replicate 4096 0,
       bds_readPos = 0, bds_readEnd = 0, bds_writePos = 0\<rparr>
    = Inr (Some (0, 16),
           \<lparr>bds_source = [], bds_crypto = 1, bds_blockSize = 16,
            bds_buffer = replicate 16 4 @ replicate 4080 0,
            bds_encrypedBuffer = replicate 32 5 @ replicate 4064 0,
            bds_readPos = 0, bds_readEnd = 16, bds_writePos = 16\<rparr>)"
    by (simp add: BlockDecryptionStream_Decrypt_pass_def
      BlockDecryptionStream_GetAvailableWrite_def
      BlockDecryptionStream_GetUsedWrite_def TWN_ARRAY_SIZE_def Let_def memwrite_def memread_def
      c_rem_def Cipher_def sub_cipher_def ReadStream_AdvanceRead_def
      BlockDecryptionStream_GetAvailableRead_def BlockDecryptionStream_NextRead_def
      BlockDecryptionStream_Decrypt_def BlockDecryptionStream_Decrypt_loop.simps
      ReadStream_NextRead_def replicate_add [symmetric])
  have 9: "BlockDecryptionStream_Flush True sub_cipher
      \<lparr>bds_source = [], bds_crypto = 1, bds_blockSize = 16,
       bds_buffer = replicate 16 4 @ replicate 4080 0,
       bds_encrypedBuffer = replicate 15 5 @ [3] @ replicate 4080 0,
       bds_readPos = 16, bds_readEnd = 16, bds_writePos = 16\<rparr>
    = Inr \<lparr>bds_source = [], bds_crypto = 1, bds_blockSize = 16,
           bds_buffer = replicate 31 4 @ [2] @ replicate 4064 0,
           bds_encrypedBuffer = replicate 15 5 @ [3] @ replicate 4080 0,
           bds_readPos = 16, bds_readEnd = 30, bds_writePos = 0\<rparr>"
    by (simp add: BlockDecryptionStream_Flush_def BlockDecryptionStream_GetUsedWrite_def
      TWN_ARRAY_SIZE_def TWN_REQUIRE_def Let_def memwrite_def memread_def memread1_def
      c_rem_def Cipher_def sub_cipher_def replicate_add [symmetric] nth_append)
  from 1 2 3 4 5 6 7 8 9 show ?thesis by (intro conjI) (simp_all only: simp_thms)
qed

text \<open>
  The count has to be a number of bytes: \<^verbatim>\<open>AdvanceRead\<close> only checks
  \<open>bytes \<le> available\<close>, so \<^verbatim>\<open>AdvanceRead(-1)\<close> on a fresh block decryptor returns true
  and leaves the read cursor at \<open>-1\<close>, and the next \<^verbatim>\<open>NextRead\<close> hands out the span
  that starts there.
\<close>

lemma AdvanceRead_negative_count:
  "BlockDecryptionStream_inv
      \<lparr>bds_source = [], bds_crypto = (1 :: byte), bds_blockSize = 16,
       bds_buffer = replicate 4096 0, bds_encrypedBuffer = replicate 4096 0,
       bds_readPos = 0, bds_readEnd = 0, bds_writePos = 0\<rparr>
 \<and> BlockDecryptionStream_AdvanceRead True (- 1)
      \<lparr>bds_source = [], bds_crypto = (1 :: byte), bds_blockSize = 16,
       bds_buffer = replicate 4096 0, bds_encrypedBuffer = replicate 4096 0,
       bds_readPos = 0, bds_readEnd = 0, bds_writePos = 0\<rparr>
    = Inr (True,
      \<lparr>bds_source = [], bds_crypto = 1, bds_blockSize = 16,
       bds_buffer = replicate 4096 0, bds_encrypedBuffer = replicate 4096 0,
       bds_readPos = - 1, bds_readEnd = 0, bds_writePos = 0\<rparr>)
 \<and> \<not> 0 \<le> bds_readPos
      \<lparr>bds_source = [], bds_crypto = (1 :: byte), bds_blockSize = 16,
       bds_buffer = replicate 4096 0, bds_encrypedBuffer = replicate 4096 0,
       bds_readPos = - 1, bds_readEnd = 0, bds_writePos = 0\<rparr>
 \<and> BlockDecryptionStream_NextRead sub_cipher
      \<lparr>bds_source = [], bds_crypto = 1, bds_blockSize = 16,
       bds_buffer = replicate 4096 0, bds_encrypedBuffer = replicate 4096 0,
       bds_readPos = - 1, bds_readEnd = 0, bds_writePos = 0\<rparr>
    = Inr (Some (- 1, 1),
      \<lparr>bds_source = [], bds_crypto = 1, bds_blockSize = 16,
       bds_buffer = replicate 4096 0, bds_encrypedBuffer = replicate 4096 0,
       bds_readPos = - 1, bds_readEnd = 0, bds_writePos = 0\<rparr>)"
  by (simp add: BlockDecryptionStream_inv_def TWN_ARRAY_SIZE_def
      BlockDecryptionStream_AdvanceRead_def TWN_REQUIRE_def
      BlockDecryptionStream_GetAvailableRead_def BlockDecryptionStream_NextRead_def)

text \<open>
  Claim C2. The code breaks it in \<^verbatim>\<open>DecryptionStream::Decrypt\<close>. The length of the span
  is cast to \<^verbatim>\<open>int\<close> before the minimum with the capacity is taken, so a span of
  \<open>2^31\<close> bytes gives \<open>len = -2^31\<close>, the minimum keeps it, and \<^verbatim>\<open>memcpy\<close>, whose count
  is a \<^verbatim>\<open>size_t\<close>, copies \<open>2^64 - 2^31\<close> bytes to the window of 4096 bytes: an access
  outside the array, from an adapter that obeys the cursor invariant.
\<close>

theorem Decrypt_span_cast_outside_window:
  "DecryptionStream_inv
     \<lparr>ds_source = [replicate 2147483648 0], ds_crypto = (1 :: byte),
      ds_buffer = replicate 4096 0, ds_readPos = 0, ds_readEnd = 0\<rparr>
 \<and> min (TWN_ARRAY_SIZE (replicate 4096 0))
       (static_cast_int (of_nat (length (replicate 2147483648 (0 :: byte))))) = - 2147483648
 \<and> size_t_of_int (- 2147483648) = 18446744071562067968
 \<and> DecryptionStream_Decrypt sub_cipher
     \<lparr>ds_source = [replicate 2147483648 0], ds_crypto = 1,
      ds_buffer = replicate 4096 0, ds_readPos = 0, ds_readEnd = 0\<rparr> = Inl OutOfBounds
 \<and> DecryptionStream_NextRead sub_cipher
     \<lparr>ds_source = [replicate 2147483648 0], ds_crypto = 1,
      ds_buffer = replicate 4096 0, ds_readPos = 0, ds_readEnd = 0\<rparr> = Inl OutOfBounds"
  by (simp add: DecryptionStream_inv_def TWN_ARRAY_SIZE_def DecryptionStream_NextRead_def
      DecryptionStream_GetAvailableRead_def DecryptionStream_Decrypt_def
      ReadStream_NextRead_def static_cast_int_def memcpy_def size_t_of_int_def memread_def)

text \<open>
  The block decryptor takes the minimum in \<^verbatim>\<open>size_t\<close> and casts afterwards: on the same
  span its pass copies 4096 bytes and stays inside its arrays.
\<close>

lemma Decrypt_pass_large_span:
  "BlockDecryptionStream_Decrypt_pass sub_cipher (replicate 2147483648 0)
      \<lparr>bds_source = [replicate 2147483648 0], bds_crypto = 1, bds_blockSize = 16,
       bds_buffer = replicate 4096 0, bds_encrypedBuffer = replicate 4096 0,
       bds_readPos = 0, bds_readEnd = 0, bds_writePos = 0\<rparr>
    = Inr (4096, \<lparr>bds_source = [replicate 2147479552 0], bds_crypto = 1, bds_blockSize = 16,
                bds_buffer = replicate 4080 255 @ replicate 16 0,
                bds_encrypedBuffer = replicate 4096 0,
                bds_readPos = 0, bds_readEnd = 4080, bds_writePos = 16\<rparr>)"
  by (simp add: BlockDecryptionStream_Decrypt_pass_def BlockDecryptionStream_GetAvailableWrite_def
      BlockDecryptionStream_GetUsedWrite_def TWN_ARRAY_SIZE_def Let_def memwrite_def memread_def
      c_rem_def Cipher_def sub_cipher_def ReadStream_AdvanceRead_def
      replicate_add [symmetric])

end
